theory Spec2Isabelle
  imports Complex_Main "HOL-Library.AList" "HOL-Library.Multiset"
begin

section \<open>Numbers\<close>

text \<open>
  Go's \<open>float64\<close>. A finite value is carried by the real number it denotes; the two
  infinities and NaN are values of their own, since \<open>x / 0\<close> and \<open>log10 0\<close> produce them
  and every comparison with NaN is false. Rounding is not modelled (arithmetic on finite
  values is exact) and the two zeros are one value, \<open>Fin 0\<close>, read as \<open>+0\<close>.
\<close>

datatype float64 = Fin real | PInf | NInf | NaN

text \<open>The operators \<open><\<close>, \<open>></\<close>, \<open>==\<close> and \<open><=\<close> of Go on \<open>float64\<close>.\<close>

fun f64_lt :: "float64 \<Rightarrow> float64 \<Rightarrow> bool" where
  "f64_lt (Fin x) (Fin y) = (x < y)"
| "f64_lt (Fin x) PInf = True"
| "f64_lt NInf (Fin y) = True"
| "f64_lt NInf PInf = True"
| "f64_lt _ _ = False"

definition f64_gt :: "float64 \<Rightarrow> float64 \<Rightarrow> bool" where
  "f64_gt x y = f64_lt y x"

definition f64_eq :: "float64 \<Rightarrow> float64 \<Rightarrow> bool" where
  "f64_eq x y = (x = y \<and> x \<noteq> NaN)"

definition f64_le :: "float64 \<Rightarrow> float64 \<Rightarrow> bool" where
  "f64_le x y = (f64_lt x y \<or> f64_eq x y)"

text \<open>Unary minus, \<open>+\<close>, \<open>-\<close> and \<open>/\<close>, with the IEEE 754 results at the special values.\<close>

fun f64_neg :: "float64 \<Rightarrow> float64" where
  "f64_neg (Fin x) = Fin (- x)"
| "f64_neg PInf = NInf"
| "f64_neg NInf = PInf"
| "f64_neg NaN = NaN"

fun f64_add :: "float64 \<Rightarrow> float64 \<Rightarrow> float64" where
  "f64_add (Fin x) (Fin y) = Fin (x + y)"
| "f64_add NaN _ = NaN"
| "f64_add _ NaN = NaN"
| "f64_add PInf NInf = NaN"
| "f64_add NInf PInf = NaN"
| "f64_add PInf _ = PInf"
| "f64_add NInf _ = NInf"
| "f64_add (Fin x) y = y"

definition f64_sub :: "float64 \<Rightarrow> float64 \<Rightarrow> float64" where
  "f64_sub x y = f64_add x (f64_neg y)"

fun f64_div :: "float64 \<Rightarrow> float64 \<Rightarrow> float64" where
  "f64_div (Fin x) (Fin y) =
     (if y \<noteq> 0 then Fin (x / y)
      else if 0 < x then PInf else if x < 0 then NInf else NaN)"
| "f64_div (Fin x) PInf = Fin 0"
| "f64_div (Fin x) NInf = Fin 0"
| "f64_div PInf (Fin y) = (if 0 \<le> y then PInf else NInf)"
| "f64_div NInf (Fin y) = (if 0 \<le> y then NInf else PInf)"
| "f64_div PInf PInf = NaN"
| "f64_div PInf NInf = NaN"
| "f64_div NInf PInf = NaN"
| "f64_div NInf NInf = NaN"
| "f64_div NaN y = NaN"
| "f64_div (Fin x) NaN = NaN"
| "f64_div PInf NaN = NaN"
| "f64_div NInf NaN = NaN"

text \<open>\<open>math.Log10\<close>: \<open>-Inf\<close> at zero, NaN below zero, \<open>+Inf\<close> at \<open>+Inf\<close>.\<close>

fun Log10 :: "float64 \<Rightarrow> float64" where
  "Log10 (Fin x) = (if 0 < x then Fin (log 10 x) else if x = 0 then NInf else NaN)"
| "Log10 PInf = PInf"
| "Log10 NInf = NaN"
| "Log10 NaN = NaN"

text \<open>\<open>math.MaxFloat64\<close>, the largest finite \<open>float64\<close>: \<open>(2 - 2^-52) * 2^1023\<close>.\<close>

definition MaxFloat64 :: real where
  "MaxFloat64 = (2 ^ 53 - 1) * 2 ^ 971"

text \<open>
  \<open>sort.Float64s\<close> sorts ascending with NaN before every other value: its order is
  \<open>x < y || (isNaN(x) && !isNaN(y))\<close>. Values that this order does not separate are one
  value here, so every sorting algorithm returns the list that insertion sort returns.
\<close>

definition float64_less :: "float64 \<Rightarrow> float64 \<Rightarrow> bool" where
  "float64_less x y = (f64_lt x y \<or> (x = NaN \<and> y \<noteq> NaN))"

fun float64_insert :: "float64 \<Rightarrow> float64 list \<Rightarrow> float64 list" where
  "float64_insert x [] = [x]"
| "float64_insert x (y # ys) =
     (if float64_less y x then y # float64_insert x ys else x # y # ys)"

fun Float64s :: "float64 list \<Rightarrow> float64 list" where
  "Float64s [] = []"
| "Float64s (x # xs) = float64_insert x (Float64s xs)"

text \<open>The run-time panics of Go that the modelled code can raise.\<close>

datatype panic = IndexOutOfRange | SliceBoundsOutOfRange | NilDereference

section \<open>graph.go\<close>

text \<open>
  A \<open>*Node\<close> is a handle. \<open>Graph\<close> is \<open>map[*Node]map[*Node]float64\<close>: a map is an
  association list with distinct keys, and the order of the list is the order in which
  \<open>range\<close> enumerates the map, which Go leaves unspecified. Theorems quantify over the
  list, hence over every enumeration order.
\<close>

type_synonym node = nat

type_synonym neighbors = "(node \<times> float64) list"

type_synonym graph = "(node \<times> neighbors) list"

text \<open>The struct \<open>Edge{a, b, weight}\<close>; its ends are the fields \<open>edge_a\<close> and \<open>edge_b\<close>.\<close>

record Edge =
  edge_a :: node
  edge_b :: node
  weight :: float64

text \<open>The composite literal \<open>Edge{a, b, weight}\<close>.\<close>

abbreviation mk_edge :: "node \<Rightarrow> node \<Rightarrow> float64 \<Rightarrow> Edge" where
  "mk_edge x y w \<equiv> \<lparr>edge_a = x, edge_b = y, weight = w\<rparr>"

text \<open>\<open>G[a][b]\<close> with the comma-ok of both lookups.\<close>

definition edge_of :: "graph \<Rightarrow> node \<Rightarrow> node \<Rightarrow> float64 option" where
  "edge_of G x y = (case map_of G x of None \<Rightarrow> None | Some nb \<Rightarrow> map_of nb y)"

text \<open>A map as Go holds it: no key twice, in the graph and in every neighbour map.\<close>

definition is_map :: "graph \<Rightarrow> bool" where
  "is_map G = (distinct (map fst G) \<and> list_all (\<lambda>(x, nb). distinct (map fst nb)) G)"

text \<open>Every neighbour is itself a key of the graph.\<close>

definition closed :: "graph \<Rightarrow> bool" where
  "closed G = list_all (\<lambda>(x, nb). list_all (\<lambda>(y, w). y \<in> fst ` set G) nb) G"

text \<open>
  The assignment \<open>G[a][b] = v\<close> as the second pass of makeConfidenceGraph writes it:
  into the neighbour map of \<open>a\<close> when there is one, else a new neighbour map.
\<close>

definition graph_set :: "graph \<Rightarrow> node \<Rightarrow> node \<Rightarrow> float64 \<Rightarrow> graph" where
  "graph_set G x y v =
     (case map_of G x of
        Some nb \<Rightarrow> AList.update x (AList.update y v nb) G
      | None \<Rightarrow> G @ [(x, [(y, v)])])"

text \<open>The first pass of makeConfidenceGraph: the two largest scores of one neighbour map.\<close>

fun largest_step :: "float64 \<times> float64 \<Rightarrow> float64 \<Rightarrow> float64 \<times> float64" where
  "largest_step (first, second) score =
     (if f64_gt score first then (score, first)
      else if f64_le score first \<and> f64_gt score second then (first, score)
      else (first, second))"

definition twoLargestOf :: "neighbors \<Rightarrow> float64 list" where
  "twoLargestOf nb =
     (case foldl largest_step (Fin 0, Fin 0) (map snd nb) of (first, second) \<Rightarrow> [first, second])"

definition twoLargest :: "graph \<Rightarrow> (node \<times> float64 list) list" where
  "twoLargest G = map (\<lambda>(x, nb). (x, twoLargestOf nb)) G"

text \<open>\<open>twoLargest[a]\<close>: the nil slice when the key is absent.\<close>

definition slice_at :: "(node \<times> float64 list) list \<Rightarrow> node \<Rightarrow> float64 list" where
  "slice_at m x = (case map_of m x of None \<Rightarrow> [] | Some s \<Rightarrow> s)"

text \<open>
  getSecondLargest. \<open>append(a, b...)\<close> copies: \<open>a\<close> is a slice literal of length and
  capacity 2, so sorting \<open>A\<close> leaves the stored lists alone. \<open>A[3]\<close> panics on a shorter
  list.
\<close>

definition getSecondLargest :: "float64 list \<Rightarrow> float64 list \<Rightarrow> panic + float64" where
  "getSecondLargest xs ys =
     (let A = Float64s (xs @ ys) in
      if length A < 4 then Inl IndexOutOfRange
      else
        let largest = A ! 3; secondLargest = A ! 2 in
        if f64_eq largest secondLargest \<and> f64_gt (A ! 1) (Fin 0) then Inr (A ! 1)
        else Inr secondLargest)"

text \<open>
  The second pass. Each entry \<open>(b, w)\<close> of the neighbour map of \<open>a\<close> is visited once;
  \<open>G[a][b] /= secondLargest\<close> rewrites that entry in place, and the quotient enters the
  confidence graph when it exceeds 1. The result is the rewritten \<open>G\<close> with the confidence
  graph.
\<close>

fun confidenceRow ::
  "(node \<times> float64 list) list \<Rightarrow> node \<Rightarrow> neighbors \<Rightarrow> graph \<Rightarrow> panic + (neighbors \<times> graph)" where
  "confidenceRow tops x [] C = Inr ([], C)"
| "confidenceRow tops x ((y, w) # nb) C =
     (case getSecondLargest (slice_at tops x) (slice_at tops y) of
        Inl e \<Rightarrow> Inl e
      | Inr secondLargest \<Rightarrow>
          let q = f64_div w secondLargest;
              C' = (if f64_gt q (Fin 1) then graph_set C x y q else C)
          in (case confidenceRow tops x nb C' of
                Inl e \<Rightarrow> Inl e
              | Inr (nb', C'') \<Rightarrow> Inr ((y, q) # nb', C'')))"

fun confidencePass ::
  "(node \<times> float64 list) list \<Rightarrow> graph \<Rightarrow> graph \<Rightarrow> panic + (graph \<times> graph)" where
  "confidencePass tops [] C = Inr ([], C)"
| "confidencePass tops ((x, nb) # G) C =
     (case confidenceRow tops x nb C of
        Inl e \<Rightarrow> Inl e
      | Inr (nb', C') \<Rightarrow>
          (case confidencePass tops G C' of
             Inl e \<Rightarrow> Inl e
           | Inr (G', C'') \<Rightarrow> Inr ((x, nb') # G', C'')))"

definition makeConfidenceGraph :: "graph \<Rightarrow> panic + (graph \<times> graph)" where
  "makeConfidenceGraph G = confidencePass (twoLargest G) G []"

text \<open>
  Modelled from the spec: insertEdge is called by makeGraph and is not in graph.go. The
  spec has it add the link's score to the weight of the directed edge, starting the edge
  when it is absent. The call passes the two ends only, so what one link adds is the
  parameter \<open>score\<close>.
\<close>

definition insertEdge :: "real \<Rightarrow> graph \<Rightarrow> node \<Rightarrow> node \<Rightarrow> graph" where
  "insertEdge score G x y =
     graph_set G x y
       (f64_add (case edge_of G x y of None \<Rightarrow> Fin 0 | Some w \<Rightarrow> w) (Fin score))"

text \<open>
  makeGraph. \<open>links\<close> lists, in the order of the two loops, the pair of ends that
  linkToNodes returns for each link of each contig that has a path; \<open>sister\<close> is the
  field of that name and \<open>plen x\<close> is \<open>x.path.length\<close>. A link within one end or
  between sister ends is skipped. The counters and the log line are left out.
\<close>

definition link_step :: "real \<Rightarrow> (node \<Rightarrow> node) \<Rightarrow> graph \<Rightarrow> node \<times> node \<Rightarrow> graph" where
  "link_step score sister G l =
     (case l of (x, y) \<Rightarrow>
        if x = y \<or> sister x = y then G
        else insertEdge score (insertEdge score G x y) y x)"

text \<open>The normalisation loop: \<open>G[a][b] = score / (float64(a.path.length) * float64(b.path.length))\<close>.\<close>

definition normalize :: "(node \<Rightarrow> int) \<Rightarrow> graph \<Rightarrow> graph" where
  "normalize plen G =
     map (\<lambda>(x, nb).
       (x, map (\<lambda>(y, score). (y, f64_div score (Fin (of_int (plen x) * of_int (plen y))))) nb)) G"

definition makeGraph :: "real \<Rightarrow> (node \<Rightarrow> node) \<Rightarrow> (node \<Rightarrow> int) \<Rightarrow> (node \<times> node) list \<Rightarrow> graph" where
  "makeGraph score sister plen links = normalize plen (foldl (link_step score sister) [] links)"

text \<open>
  breakCycle. The loop keeps the index and the weight of the lightest edge seen so far
  among those heavier than 1, starting from index 0 and \<open>math.MaxFloat64\<close>.
  \<open>path[minI+1:]\<close> panics on the empty path.
\<close>

fun weakest :: "Edge list \<Rightarrow> nat \<Rightarrow> nat \<times> float64 \<Rightarrow> nat \<times> float64" where
  "weakest [] i (minI, minWeight) = (minI, minWeight)"
| "weakest (e # es) i (minI, minWeight) =
     weakest es (Suc i)
       (if f64_gt (weight e) (Fin 1) \<and> f64_lt (weight e) minWeight then (i, weight e)
        else (minI, minWeight))"

definition minI_of :: "Edge list \<Rightarrow> nat" where
  "minI_of path = fst (weakest path 0 (0, Fin MaxFloat64))"

definition breakCycle :: "Edge list \<Rightarrow> panic + Edge list" where
  "breakCycle path =
     (let minI = minI_of path in
      if length path < minI + 1 then Inl SliceBoundsOutOfRange
      else Inr (drop (minI + 1) path @ take minI path))"

text \<open>
  dfs. The visited map is passed by reference, so the model returns it with the path and
  the cycle flag. \<open>for b, weight = range nb { break }\<close> takes the first neighbour that
  the enumeration yields. On an empty neighbour map it leaves \<open>b\<close> nil, and the next call
  dereferences it for its sister.
\<close>

definition neighbor_nodes :: "graph \<Rightarrow> node set" where
  "neighbor_nodes G = (\<Union>(x, nb) \<in> set G. fst ` set nb)"

function dfs ::
  "(node \<Rightarrow> node) \<Rightarrow> graph \<Rightarrow> node \<Rightarrow> Edge list \<Rightarrow> node set \<Rightarrow> bool
     \<Rightarrow> panic + (Edge list \<times> bool \<times> node set)" where
  "dfs sister G x path visited visitSister =
     (if x \<in> visited then Inr (path, True, visited)
      else if visitSister then
        dfs sister G (sister x)
          (path @ [mk_edge x (sister x) (Fin 0)]) (insert x visited) False
      else
        (case map_of G x of
           None \<Rightarrow> Inr (path, False, insert x visited)
         | Some [] \<Rightarrow> Inl NilDereference
         | Some ((y, w) # rest) \<Rightarrow>
             dfs sister G y
               (path @ [mk_edge x y w]) (insert x visited) True))"
  by pat_completeness auto
termination
proof (relation "measure (\<lambda>(sister, G, x, path, visited, visitSister).
    card ((insert x (if visitSister then {sister x} else {})
            \<union> neighbor_nodes G \<union> sister ` neighbor_nodes G) - visited))", goal_cases)
  case 1
  show ?case by simp
next
  case (2 sister G x path visited visitSister)
  have fin: "finite (neighbor_nodes G)"
    by (auto simp: neighbor_nodes_def)
  have "(insert (sister x) (neighbor_nodes G \<union> sister ` neighbor_nodes G)) - insert x visited
      \<subset> (insert x (insert (sister x) (neighbor_nodes G \<union> sister ` neighbor_nodes G))) - visited"
    using 2 by auto
  then have "card ((insert (sister x) (neighbor_nodes G \<union> sister ` neighbor_nodes G)) - insert x visited)
      < card ((insert x (insert (sister x) (neighbor_nodes G \<union> sister ` neighbor_nodes G))) - visited)"
    using fin by (intro psubset_card_mono) auto
  then show ?case using 2 by (simp add: Un_commute insert_commute)
next
  case (3 sister G x path visited visitSister nb p rest y w)
  have fin: "finite (neighbor_nodes G)"
    by (auto simp: neighbor_nodes_def)
  have "(x, (y, w) # rest) \<in> set G"
    using 3 by (auto dest: map_of_SomeD)
  then have y: "y \<in> neighbor_nodes G"
    by (force simp: neighbor_nodes_def)
  then have eq: "insert y (insert (sister y) (neighbor_nodes G \<union> sister ` neighbor_nodes G))
      = neighbor_nodes G \<union> sister ` neighbor_nodes G"
    by auto
  have "(neighbor_nodes G \<union> sister ` neighbor_nodes G) - insert x visited
      \<subset> (insert x (neighbor_nodes G \<union> sister ` neighbor_nodes G)) - visited"
    using 3 by auto
  then have "card ((neighbor_nodes G \<union> sister ` neighbor_nodes G) - insert x visited)
      < card ((insert x (neighbor_nodes G \<union> sister ` neighbor_nodes G)) - visited)"
    using fin by (intro psubset_card_mono) auto
  then show ?case using 3 eq by simp
qed

declare dfs.simps [simp del]

text \<open>
  The numbering of ends that the examples use: the contig \<open>k\<close> has the ends \<open>2k\<close> and
  \<open>2k + 1\<close>, each the sister of the other.
\<close>

definition sister_end :: "node \<Rightarrow> node" where
  "sister_end x = (if even x then x + 1 else x - 1)"

section \<open>clm.go\<close>

text \<open>
  The structs of clm.go. \<open>Pair{ai, bi}\<close> and \<open>OrientedPair{ai, bi, ao, bo}\<close> are map
  keys, compared field by field; an orientation is a byte. \<open>GArray\<close> is declared in
  another file and is the type parameter \<open>'g\<close>. The fields of \<open>Tig\<close> and \<open>Tour\<close> carry
  the struct's name in front, as \<open>TigF\<close> has fields of the same names.
\<close>

type_synonym Pair = "int \<times> int"

type_synonym OrientedPair = "int \<times> int \<times> char \<times> char"

record Contact =
  strandedness :: int
  nlinks :: int
  meanDist :: int

record TigF =
  Idx :: int
  Name :: string
  Size :: int
  IsActive :: bool

record Tig =
  TigIdx :: int
  TigSize :: int

record Tour =
  TourTigs :: "Tig list"
  TourM :: "int list list"

text \<open>
  The fields of \<open>CLMFile\<close> that the modelled methods read or write. The two contact maps
  are association lists, as the graph is; \<open>tigToIdx\<close> is only looked up.
\<close>

record 'g CLMFile =
  Tigs :: "TigF list"
  Tour :: Tour
  tigToIdx :: "string \<Rightarrow> int option"
  contacts :: "(Pair \<times> Contact) list"
  orientedContacts :: "(OrientedPair \<times> 'g) list"

text \<open>
  One line of the clm file after it is split into its fields: the two contig names with
  their orientation bytes, the link count and the distances.
\<close>

record Row =
  r_at :: string
  r_ao :: char
  r_bt :: string
  r_bo :: char
  r_nlinks :: int
  r_dists :: "int list"

text \<open>Go's \<open>int\<close> is 64 bits wide: a sum wraps around.\<close>

definition int64 :: "int \<Rightarrow> int" where
  "int64 x = (x + 2 ^ 63) mod 2 ^ 64 - 2 ^ 63"

text \<open>
  ParseIds, from the two words of each line on: the contig name and its size as
  \<open>strconv.Atoi\<close> reads it. Every line appends an active contig with the next index.
\<close>

fun ParseIds_loop :: "'g CLMFile \<Rightarrow> int \<Rightarrow> (string \<times> int) list \<Rightarrow> 'g CLMFile" where
  "ParseIds_loop r idx [] = r"
| "ParseIds_loop r idx ((tig, sz) # rest) =
     ParseIds_loop
       (r\<lparr>Tigs := Tigs r @ [\<lparr>Idx = idx, Name = tig, Size = sz, IsActive = True\<rparr>],
          tigToIdx := (tigToIdx r)(tig \<mapsto> idx)\<rparr>)
       (int64 (idx + 1)) rest"

definition ParseIds :: "'g CLMFile \<Rightarrow> (string \<times> int) list \<Rightarrow> 'g CLMFile" where
  "ParseIds r ids = ParseIds_loop r 0 ids"

definition rr :: "char \<Rightarrow> char" where
  "rr c = (if c = CHR ''-'' then CHR ''+'' else CHR ''-'')"

text \<open>
  The body of the loop of ParseClm from the two lookups in \<open>tigToIdx\<close> on.
  \<open>GoldenArray\<close> and \<open>HmeanInt\<close> are defined in another file and are parameters;
  \<open>HmeanInt ds\<close> stands for \<open>HmeanInt(dists, GRLB, GRUB)\<close>.
\<close>

definition ParseClm_row ::
  "(int list \<Rightarrow> 'g) \<Rightarrow> (int list \<Rightarrow> int) \<Rightarrow> 'g CLMFile \<Rightarrow> Row \<Rightarrow> 'g CLMFile" where
  "ParseClm_row GoldenArray HmeanInt r row =
     (case tigToIdx r (r_at row) of
        None \<Rightarrow> r
      | Some ai \<Rightarrow>
          (case tigToIdx r (r_bt row) of
             None \<Rightarrow> r
           | Some bi \<Rightarrow>
               let gdists = GoldenArray (r_dists row);
                   md = HmeanInt (r_dists row);
                   st = (if r_ao row \<noteq> r_bo row then - 1 else 1);
                   pair = (ai, bi);
                   c = \<lparr>strandedness = st, nlinks = r_nlinks row, meanDist = md\<rparr>;
                   contacts' =
                     (case map_of (contacts r) pair of
                        Some p \<Rightarrow>
                          if meanDist p > md then AList.update pair c (contacts r)
                          else contacts r
                      | None \<Rightarrow> AList.update pair c (contacts r));
                   oriented =
                     AList.update (bi, ai, rr (r_bo row), rr (r_ao row)) gdists
                       (AList.update (ai, bi, r_ao row, r_bo row) gdists (orientedContacts r))
               in r\<lparr>contacts := contacts', orientedContacts := oriented\<rparr>))"

definition ParseClm ::
  "(int list \<Rightarrow> 'g) \<Rightarrow> (int list \<Rightarrow> int) \<Rightarrow> 'g CLMFile \<Rightarrow> Row list \<Rightarrow> 'g CLMFile" where
  "ParseClm GoldenArray HmeanInt r rows = foldl (ParseClm_row GoldenArray HmeanInt) r rows"

text \<open>calculateDensities. \<open>densities[i] += n\<close> panics when \<open>i\<close> is not an index.\<close>

definition add_at :: "int list \<Rightarrow> int \<Rightarrow> int \<Rightarrow> panic + int list" where
  "add_at ds i n =
     (if 0 \<le> i \<and> nat i < length ds then Inr (ds[nat i := int64 (ds ! nat i + n)])
      else Inl IndexOutOfRange)"

fun density_loop :: "(Pair \<times> Contact) list \<Rightarrow> int list \<Rightarrow> panic + int list" where
  "density_loop [] ds = Inr ds"
| "density_loop ((pair, contact) # cs) ds =
     (case add_at ds (fst pair) (nlinks contact) of
        Inl e \<Rightarrow> Inl e
      | Inr ds' \<Rightarrow>
          (case add_at ds' (snd pair) (nlinks contact) of
             Inl e \<Rightarrow> Inl e
           | Inr ds'' \<Rightarrow> density_loop cs ds''))"

definition calculateDensities :: "'g CLMFile \<Rightarrow> panic + float64 list" where
  "calculateDensities r =
     (case density_loop (contacts r) (replicate (length (Tigs r)) 0) of
        Inl e \<Rightarrow> Inl e
      | Inr densities \<Rightarrow>
          Inr (map (\<lambda>(d, tig).
                 Log10 (f64_div (Fin (of_int d)) (Fin (of_int (min (Size tig) 500000)))))
               (zip densities (Tigs r))))"

text \<open>
  pruneByDensity and pruneBySize. \<open>OutlierCutoff\<close> and the constant \<open>MINSIZE\<close> are
  declared in another file and are parameters. The log lines are left out.
\<close>

definition pruneByDensity ::
  "(float64 list \<Rightarrow> float64 \<times> float64) \<Rightarrow> int \<Rightarrow> 'g CLMFile \<Rightarrow> panic + 'g CLMFile" where
  "pruneByDensity OutlierCutoff MINSIZE r =
     (case calculateDensities r of
        Inl e \<Rightarrow> Inl e
      | Inr logdensities \<Rightarrow>
          (case OutlierCutoff logdensities of (lb, ub) \<Rightarrow>
             Inr (r\<lparr>Tigs :=
               map (\<lambda>(tig, l).
                     if f64_lt l lb \<and> Size tig < MINSIZE * 10 then tig\<lparr>IsActive := False\<rparr>
                     else tig)
                   (zip (Tigs r) logdensities)\<rparr>)))"

definition pruneBySize :: "int \<Rightarrow> 'g CLMFile \<Rightarrow> 'g CLMFile" where
  "pruneBySize MINSIZE r =
     r\<lparr>Tigs := map (\<lambda>tig. if Size tig < MINSIZE then tig\<lparr>IsActive := False\<rparr> else tig) (Tigs r)\<rparr>"

text \<open>
  pruneTour. The candidate for position \<open>i\<close> is a clone of the tour with the element at
  \<open>i\<close> deleted; \<open>Clone\<close> and \<open>Evaluate\<close> are methods of \<open>Tour\<close> defined in another file:
  the clone is taken to copy the tour, and \<open>Evaluate\<close> is a parameter. Each goroutine
  writes one slot of \<open>log10ds\<close>, and the vector is read after \<open>wg.Wait()\<close>; the model
  computes the slots one after the other.
\<close>

definition delete_at :: "nat \<Rightarrow> Tour \<Rightarrow> Tour" where
  "delete_at i tour = tour\<lparr>TourTigs := take i (TourTigs tour) @ drop (Suc i) (TourTigs tour)\<rparr>"

text \<open>The body of the goroutine: what it writes to \<open>log10ds[idx]\<close>.\<close>

definition log10d :: "float64 \<Rightarrow> float64 \<Rightarrow> float64" where
  "log10d tourScore newTourScore =
     (let deltaScore = f64_sub tourScore newTourScore in
      if f64_gt deltaScore (Fin (1 / 10 ^ 9)) then Log10 deltaScore else Fin (- 9))"

definition log10ds_of :: "(Tour \<Rightarrow> float64) \<Rightarrow> Tour \<Rightarrow> float64 list" where
  "log10ds_of Evaluate tour =
     (let tourScore = f64_neg (Evaluate tour) in
      map (\<lambda>i. log10d tourScore (f64_neg (Evaluate (delete_at i tour))))
        [0..<length (TourTigs tour)])"

text \<open>The loop that deactivates the outliers and counts them; \<open>r.Tigs[tig.Idx]\<close> may panic.\<close>

fun deactivate ::
  "TigF list \<Rightarrow> (Tig \<times> float64) list \<Rightarrow> float64 \<Rightarrow> nat \<Rightarrow> panic + (TigF list \<times> nat)" where
  "deactivate tigs [] lb invalid = Inr (tigs, invalid)"
| "deactivate tigs ((tig, l) # rest) lb invalid =
     (if f64_lt l lb then
        (if 0 \<le> TigIdx tig \<and> nat (TigIdx tig) < length tigs then
           deactivate (tigs[nat (TigIdx tig) := (tigs ! nat (TigIdx tig))\<lparr>IsActive := False\<rparr>])
             rest lb (Suc invalid)
         else Inl IndexOutOfRange)
      else deactivate tigs rest lb invalid)"

text \<open>The loop that rebuilds the tour from the members that are still active.\<close>

fun still_active :: "TigF list \<Rightarrow> Tig list \<Rightarrow> panic + Tig list" where
  "still_active tigs [] = Inr []"
| "still_active tigs (tig # rest) =
     (if 0 \<le> TigIdx tig \<and> nat (TigIdx tig) < length tigs then
        (case still_active tigs rest of
           Inl e \<Rightarrow> Inl e
         | Inr kept \<Rightarrow> Inr (if IsActive (tigs ! nat (TigIdx tig)) then tig # kept else kept))
      else Inl IndexOutOfRange)"

text \<open>One round; the flag of the result says that the round found nothing (\<open>break\<close>).\<close>

definition pruneTour_phase ::
  "(Tour \<Rightarrow> float64) \<Rightarrow> (float64 list \<Rightarrow> float64 \<times> float64) \<Rightarrow> 'g CLMFile
     \<Rightarrow> panic + ('g CLMFile \<times> bool)" where
  "pruneTour_phase Evaluate OutlierCutoff r =
     (let tour = Tour r; log10ds = log10ds_of Evaluate tour in
      case OutlierCutoff log10ds of (lb, ub) \<Rightarrow>
        (case deactivate (Tigs r) (zip (TourTigs tour) log10ds) lb 0 of
           Inl e \<Rightarrow> Inl e
         | Inr (tigs', invalid) \<Rightarrow>
             if invalid = 0 then Inr (r\<lparr>Tigs := tigs'\<rparr>, True)
             else
               (case still_active tigs' (TourTigs tour) of
                  Inl e \<Rightarrow> Inl e
                | Inr kept \<Rightarrow> Inr (r\<lparr>Tigs := tigs', Tour := tour\<lparr>TourTigs := kept\<rparr>\<rparr>, False))))"

text \<open>\<open>for phase := 1; phase < 3; phase++\<close>: two rounds at most.\<close>

definition pruneTour ::
  "(Tour \<Rightarrow> float64) \<Rightarrow> (float64 list \<Rightarrow> float64 \<times> float64) \<Rightarrow> 'g CLMFile \<Rightarrow> panic + 'g CLMFile" where
  "pruneTour Evaluate OutlierCutoff r =
     (case pruneTour_phase Evaluate OutlierCutoff r of
        Inl e \<Rightarrow> Inl e
      | Inr (r1, stop) \<Rightarrow>
          if stop then Inr r1
          else (case pruneTour_phase Evaluate OutlierCutoff r1 of
                  Inl e \<Rightarrow> Inl e
                | Inr (r2, stop2) \<Rightarrow> Inr r2))"

section \<open>Notions used in the statements\<close>

text \<open>
  The confidence denominator of an edge as the spec words it: the two top-2 lists of
  the ends are concatenated and sorted ascending into \<open>A\<close>; the denominator is \<open>A[2]\<close>,
  and \<open>A[1]\<close> instead exactly when \<open>A[3]\<close> equals \<open>A[2]\<close> and \<open>A[1] > 0\<close>.
\<close>

definition confidence_denominator :: "graph \<Rightarrow> node \<Rightarrow> node \<Rightarrow> float64" where
  "confidence_denominator G x y =
     (let A = Float64s (slice_at (twoLargest G) x @ slice_at (twoLargest G) y) in
      if f64_eq (A ! 3) (A ! 2) \<and> f64_gt (A ! 1) (Fin 0) then A ! 1 else A ! 2)"

text \<open>
  What one neighbour map contributes to the confidence graph at the neighbour \<open>y\<close>: the
  quotient of the weight and the second largest value, when it exceeds 1.
\<close>

definition confident :: "(node \<times> float64 list) list \<Rightarrow> node \<Rightarrow> neighbors \<Rightarrow> node \<Rightarrow> float64 option" where
  "confident tops x nb y =
     (case map_of nb y of
        None \<Rightarrow> None
      | Some w \<Rightarrow>
          (case getSecondLargest (slice_at tops x) (slice_at tops y) of
             Inl e \<Rightarrow> None
           | Inr d \<Rightarrow> if f64_gt (f64_div w d) (Fin 1) then Some (f64_div w d) else None))"


text \<open>
  A row is ingested for the pair \<open>(ai, bi)\<close> when its two names are in \<open>tigToIdx\<close> with
  these indices, in this order. \<open>contact_of\<close> is the \<open>Contact\<close> that ParseClm builds from
  a row, and \<open>slot_step\<close> is what ParseClm does to the entry of \<open>contacts\<close> under the
  pair of the row.
\<close>

definition hits :: "'g CLMFile \<Rightarrow> Pair \<Rightarrow> Row \<Rightarrow> bool" where
  "hits r pair row =
     (tigToIdx r (r_at row) = Some (fst pair) \<and> tigToIdx r (r_bt row) = Some (snd pair))"

definition contact_of :: "(int list \<Rightarrow> int) \<Rightarrow> Row \<Rightarrow> Contact" where
  "contact_of HmeanInt row =
     \<lparr>strandedness = (if r_ao row \<noteq> r_bo row then - 1 else 1),
      nlinks = r_nlinks row, meanDist = HmeanInt (r_dists row)\<rparr>"

definition slot_step :: "Contact option \<Rightarrow> Contact \<Rightarrow> Contact option" where
  "slot_step slot c =
     (case slot of None \<Rightarrow> Some c | Some p \<Rightarrow> if meanDist p > meanDist c then Some c else Some p)"

text \<open>
  The clm file of the examples: the contigs A and B with the indices 0 and 1 and no
  contact yet. In the examples the histogram of a row is its list of distances, and
  every row has one distance, which is then its harmonic mean.
\<close>

definition clm0 :: "int list CLMFile" where
  "clm0 = \<lparr>Tigs = [], Tour = \<lparr>TourTigs = [], TourM = []\<rparr>,
           tigToIdx = [''A'' \<mapsto> 0, ''B'' \<mapsto> 1], contacts = [], orientedContacts = []\<rparr>"

definition mk_row :: "string \<Rightarrow> char \<Rightarrow> string \<Rightarrow> char \<Rightarrow> int \<Rightarrow> int list \<Rightarrow> Row" where
  "mk_row atig ao btig bo n ds =
     \<lparr>r_at = atig, r_ao = ao, r_bt = btig, r_bo = bo, r_nlinks = n, r_dists = ds\<rparr>"


text \<open>
  What a pruning pass may do to a contig: switch it off, and nothing else. A pass is
  deactivating when it does so to every contig, position by position.
\<close>

definition only_deactivated :: "TigF \<Rightarrow> TigF \<Rightarrow> bool" where
  "only_deactivated old new =
     ((IsActive new \<longrightarrow> IsActive old) \<and> Idx new = Idx old \<and> Name new = Name old
      \<and> Size new = Size old)"

definition deactivating :: "TigF list \<Rightarrow> TigF list \<Rightarrow> bool" where
  "deactivating old new = list_all2 only_deactivated old new"

text \<open>
  A clm file with the contigs A (500 bases) and B (20000 bases), both active, five links
  between them, and both in the tour.
\<close>

definition clm1 :: "int list CLMFile" where
  "clm1 = \<lparr>Tigs = [\<lparr>Idx = 0, Name = ''A'', Size = 500, IsActive = True\<rparr>,
                   \<lparr>Idx = 1, Name = ''B'', Size = 20000, IsActive = True\<rparr>],
           Tour = \<lparr>TourTigs = [\<lparr>TigIdx = 0, TigSize = 500\<rparr>, \<lparr>TigIdx = 1, TigSize = 20000\<rparr>],
                   TourM = [[0, 5], [5, 0]]\<rparr>,
           tigToIdx = [''A'' \<mapsto> 0, ''B'' \<mapsto> 1],
           contacts = [((0, 1), \<lparr>strandedness = 1, nlinks = 5, meanDist = 30\<rparr>)],
           orientedContacts = []\<rparr>"

text \<open>
  Multiplying every weight of a graph by a constant \<open>c\<close>; the infinities and NaN stay
  as they are, as they do under a multiplication by a positive number.
\<close>

fun f64_scale :: "real \<Rightarrow> float64 \<Rightarrow> float64" where
  "f64_scale c (Fin x) = Fin (c * x)"
| "f64_scale c PInf = PInf"
| "f64_scale c NInf = NInf"
| "f64_scale c NaN = NaN"

definition scale_neighbors :: "real \<Rightarrow> neighbors \<Rightarrow> neighbors" where
  "scale_neighbors c nb = map (\<lambda>(y, w). (y, f64_scale c w)) nb"

definition scale_graph :: "real \<Rightarrow> graph \<Rightarrow> graph" where
  "scale_graph c G = map (\<lambda>(x, nb). (x, scale_neighbors c nb)) G"

text \<open>
  A state of the first pass is ranked when its second value is at most its first. Two
  association lists are the same map when they hold the same keys with neighbour maps
  of the same entries, in whatever order.
\<close>

definition ranked :: "float64 \<times> float64 \<Rightarrow> bool" where
  "ranked st = (case st of (first, second) \<Rightarrow> f64_le second first)"

definition same_map :: "graph \<Rightarrow> graph \<Rightarrow> bool" where
  "same_map G H =
     (\<forall>x. rel_option (\<lambda>nb nb'. mset nb = mset nb') (map_of G x) (map_of H x))"

text \<open>
  The graphs that makeGraph is meant to build: every weight is finite and positive, and
  the edge from \<open>a\<close> to \<open>b\<close> has the weight of the edge from \<open>b\<close> to \<open>a\<close>.
\<close>

definition positive_weights :: "graph \<Rightarrow> bool" where
  "positive_weights G = (\<forall>x y w. edge_of G x y = Some w \<longrightarrow> (\<exists>r. w = Fin r \<and> 0 < r))"

definition symmetric_weights :: "graph \<Rightarrow> bool" where
  "symmetric_weights G = (\<forall>x y. edge_of G x y = edge_of G y x)"

text \<open>
  The orientation bytes of a clm file, the flipped key of an oriented pair, and the
  property that every key with such bytes has the histogram of its flipped key.
\<close>

definition strand :: "char \<Rightarrow> bool" where
  "strand c = (c = CHR ''+'' \<or> c = CHR ''-'')"

definition flipped :: "OrientedPair \<Rightarrow> OrientedPair" where
  "flipped k = (case k of (i, j, oi, oj) \<Rightarrow> (j, i, rr oj, rr oi))"

definition mirrored :: "(OrientedPair \<times> 'g) list \<Rightarrow> bool" where
  "mirrored oc =
     (\<forall>i j oi oj. strand oi \<and> strand oj \<longrightarrow>
        map_of oc (flipped (i, j, oi, oj)) = map_of oc (i, j, oi, oj))"

section \<open>Properties of makeConfidenceGraph\<close>

lemma edge_of_graph_set:
  "edge_of (graph_set C x y v) x' y' = (if x' = x \<and> y' = y then Some v else edge_of C x' y')"
  by (auto simp: edge_of_def graph_set_def update_conv' map_add_def split: option.splits)

lemma edge_of_Nil [simp]: "edge_of [] x y = None"
  by (simp add: edge_of_def)

lemma confidenceRow_edges:
  "confidenceRow tops x nb C = Inr (nb', C') \<Longrightarrow> distinct (map fst nb) \<Longrightarrow>
   edge_of C' x' y' =
     (if x' = x then (case confident tops x nb y' of Some q \<Rightarrow> Some q | None \<Rightarrow> edge_of C x y')
      else edge_of C x' y')"
proof (induction nb arbitrary: C nb' C')
  case Nil
  then show ?case by (simp add: confident_def)
next
  case (Cons e nb)
  obtain y w where e: "e = (y, w)" by (cases e)
  from Cons.prems(1) e obtain d where d: "getSecondLargest (slice_at tops x) (slice_at tops y) = Inr d"
    by (auto split: sum.splits)
  let ?q = "f64_div w d"
  let ?C1 = "if f64_gt ?q (Fin 1) then graph_set C x y ?q else C"
  from Cons.prems(1) e d obtain nb1 where
    rest: "confidenceRow tops x nb ?C1 = Inr (nb1, C')"
    by (auto simp: Let_def split: sum.splits)
  from Cons.prems(2) e have dist: "distinct (map fst nb)" and fresh: "y \<notin> fst ` set nb"
    by auto
  have IH: "edge_of C' x' y' =
     (if x' = x then (case confident tops x nb y' of Some q \<Rightarrow> Some q | None \<Rightarrow> edge_of ?C1 x y')
      else edge_of ?C1 x' y')"
    by (rule Cons.IH[OF rest dist])
  have absent: "map_of nb y = None"
    using fresh by (simp add: map_of_eq_None_iff)
  show ?case
  proof (cases "y' = y")
    case True
    then have "confident tops x nb y' = None"
      using absent by (simp add: confident_def)
    then show ?thesis
      using IH True e d
      by (auto simp: confident_def edge_of_graph_set)
  next
    case False
    then have "confident tops x (e # nb) y' = confident tops x nb y'"
      using e by (simp add: confident_def)
    then show ?thesis
      using IH False by (auto simp: edge_of_graph_set split: option.splits)
  qed
qed

lemma confidencePass_edges:
  "confidencePass tops G C = Inr (G', C') \<Longrightarrow> is_map G \<Longrightarrow>
   edge_of C' x y =
     (case map_of G x of
        None \<Rightarrow> edge_of C x y
      | Some nb \<Rightarrow> (case confident tops x nb y of Some q \<Rightarrow> Some q | None \<Rightarrow> edge_of C x y))"
proof (induction G arbitrary: C G' C')
  case Nil
  then show ?case by simp
next
  case (Cons e G)
  obtain a nb where e: "e = (a, nb)" by (cases e)
  from Cons.prems(1) e obtain nb1 C1 G1 where
    row: "confidenceRow tops a nb C = Inr (nb1, C1)"
    and rest: "confidencePass tops G C1 = Inr (G1, C')"
    by (auto split: sum.splits)
  from Cons.prems(2) e have m: "is_map G" and dnb: "distinct (map fst nb)"
    and fresh: "a \<notin> fst ` set G"
    by (auto simp: is_map_def)
  have absent: "map_of G a = None"
    using fresh by (simp add: map_of_eq_None_iff)
  note IH = Cons.IH[OF rest m]
  note R = confidenceRow_edges[OF row dnb]
  show ?case
  proof (cases "x = a")
    case True
    then show ?thesis using IH R e absent by (simp split: option.splits)
  next
    case False
    then show ?thesis using IH R e by (simp split: option.splits)
  qed
qed

lemma length_float64_insert [simp]: "length (float64_insert x xs) = Suc (length xs)"
  by (induction xs) auto

lemma length_Float64s [simp]: "length (Float64s xs) = length xs"
  by (induction xs) auto

lemma length_twoLargestOf [simp]: "length (twoLargestOf nb) = 2"
  by (simp add: twoLargestOf_def split: prod.split)

lemma map_of_twoLargest: "map_of (twoLargest G) x = map_option twoLargestOf (map_of G x)"
  by (induction G) (auto simp: twoLargest_def)

lemma slice_at_twoLargest:
  "slice_at (twoLargest G) x = (case map_of G x of None \<Rightarrow> [] | Some nb \<Rightarrow> twoLargestOf nb)"
  by (simp add: slice_at_def map_of_twoLargest split: option.split)

lemma length_slice_at_key:
  "x \<in> fst ` set G \<Longrightarrow> length (slice_at (twoLargest G) x) = 2"
proof -
  assume "x \<in> fst ` set G"
  then obtain nb where "map_of G x = Some nb"
    by (metis map_of_eq_None_iff not_Some_eq)
  then show ?thesis by (simp add: slice_at_twoLargest)
qed

lemma getSecondLargest_Inr:
  "4 \<le> length xs + length ys \<Longrightarrow>
   getSecondLargest xs ys =
     Inr (let A = Float64s (xs @ ys) in
          if f64_eq (A ! 3) (A ! 2) \<and> f64_gt (A ! 1) (Fin 0) then A ! 1 else A ! 2)"
  by (simp add: getSecondLargest_def Let_def)

lemma getSecondLargest_Inl:
  "length xs + length ys < 4 \<Longrightarrow> getSecondLargest xs ys = Inl IndexOutOfRange"
  by (simp add: getSecondLargest_def Let_def)

lemma confidenceRow_Inr:
  "\<forall>(y, w) \<in> set nb. 4 \<le> length (slice_at tops x) + length (slice_at tops y)
   \<Longrightarrow> \<exists>nb' C'. confidenceRow tops x nb C = Inr (nb', C')"
proof (induction nb arbitrary: C)
  case Nil
  show ?case by simp
next
  case (Cons e nb)
  obtain y w where e: "e = (y, w)" by (cases e)
  with Cons.prems have len: "4 \<le> length (slice_at tops x) + length (slice_at tops y)"
    and rest: "\<forall>(y, w) \<in> set nb. 4 \<le> length (slice_at tops x) + length (slice_at tops y)"
    by auto
  from getSecondLargest_Inr[OF len] obtain d where
    d: "getSecondLargest (slice_at tops x) (slice_at tops y) = Inr d"
    by blast
  from Cons.IH[OF rest] obtain nb' C' where
    "confidenceRow tops x nb (if f64_gt (f64_div w d) (Fin 1) then graph_set C x y (f64_div w d) else C)
       = Inr (nb', C')"
    by blast
  then show ?case using e d by (simp add: Let_def)
qed

lemma confidencePass_Inr:
  "\<forall>(x, nb) \<in> set G. \<forall>(y, w) \<in> set nb. 4 \<le> length (slice_at tops x) + length (slice_at tops y)
   \<Longrightarrow> \<exists>G' C'. confidencePass tops G C = Inr (G', C')"
proof (induction G arbitrary: C)
  case Nil
  show ?case by simp
next
  case (Cons e G)
  obtain x nb where e: "e = (x, nb)" by (cases e)
  with Cons.prems have
    row: "\<forall>(y, w) \<in> set nb. 4 \<le> length (slice_at tops x) + length (slice_at tops y)"
    and rest: "\<forall>(x, nb) \<in> set G. \<forall>(y, w) \<in> set nb.
        4 \<le> length (slice_at tops x) + length (slice_at tops y)"
    by auto
  from confidenceRow_Inr[OF row] obtain nb' C1 where
    r: "confidenceRow tops x nb C = Inr (nb', C1)" by blast
  from Cons.IH[OF rest] obtain G' C' where "confidencePass tops G C1 = Inr (G', C')" by blast
  then show ?case using e r by simp
qed

lemma closed_slices:
  assumes "closed G"
  shows "\<forall>(x, nb) \<in> set G. \<forall>(y, w) \<in> set nb.
    4 \<le> length (slice_at (twoLargest G) x) + length (slice_at (twoLargest G) y)"
proof (intro ballI, clarify)
  fix x nb y w
  assume x: "(x, nb) \<in> set G" and y: "(y, w) \<in> set nb"
  then have "y \<in> fst ` set G"
    using assms by (auto simp: closed_def list_all_iff)
  moreover have "x \<in> fst ` set G" using x by force
  ultimately show "4 \<le> length (slice_at (twoLargest G) x) + length (slice_at (twoLargest G) y)"
    by (simp add: length_slice_at_key)
qed

text \<open>
  The edges of the confidence graph after a run that returns, in terms of the weights
  of \<open>G\<close> and of the top-2 lists of the first pass.
\<close>

lemma confidence_edges:
  assumes "is_map G" and "makeConfidenceGraph G = Inr (G', C)"
  shows "edge_of C x y =
     (case edge_of G x y of
        None \<Rightarrow> None
      | Some w \<Rightarrow>
          (case getSecondLargest (slice_at (twoLargest G) x) (slice_at (twoLargest G) y) of
             Inl e \<Rightarrow> None
           | Inr d \<Rightarrow> if f64_gt (f64_div w d) (Fin 1) then Some (f64_div w d) else None))"
  using confidencePass_edges[OF assms(2)[unfolded makeConfidenceGraph_def] assms(1), of x y]
  by (auto simp: edge_of_def confident_def split: option.splits)

lemma confidenceRow_Inl:
  "\<exists>(y, w) \<in> set nb. length (slice_at tops x) + length (slice_at tops y) < 4
   \<Longrightarrow> confidenceRow tops x nb C = Inl IndexOutOfRange"
proof (induction nb arbitrary: C)
  case Nil
  then show ?case by simp
next
  case (Cons e nb)
  obtain y w where e: "e = (y, w)" by (cases e)
  show ?case
  proof (cases "length (slice_at tops x) + length (slice_at tops y) < 4")
    case True
    then show ?thesis using e by (simp add: getSecondLargest_Inl)
  next
    case False
    then have len: "4 \<le> length (slice_at tops x) + length (slice_at tops y)" by simp
    from False Cons.prems e have
      "\<exists>(y, w) \<in> set nb. length (slice_at tops x) + length (slice_at tops y) < 4"
      by auto
    from Cons.IH[OF this] show ?thesis
      using e by (simp add: getSecondLargest_Inr[OF len] Let_def)
  qed
qed

lemma confidencePass_Inl:
  "\<exists>(x, nb) \<in> set G. \<exists>(y, w) \<in> set nb. length (slice_at tops x) + length (slice_at tops y) < 4
   \<Longrightarrow> confidencePass tops G C = Inl IndexOutOfRange"
proof (induction G arbitrary: C)
  case Nil
  then show ?case by simp
next
  case (Cons e G)
  obtain x nb where e: "e = (x, nb)" by (cases e)
  show ?case
  proof (cases "\<exists>(y, w) \<in> set nb. length (slice_at tops x) + length (slice_at tops y) < 4")
    case True
    from confidenceRow_Inl[OF True] show ?thesis using e by simp
  next
    case False
    then have "\<forall>(y, w) \<in> set nb. 4 \<le> length (slice_at tops x) + length (slice_at tops y)"
      by auto
    from confidenceRow_Inr[OF this] obtain nb' C1 where
      row: "confidenceRow tops x nb C = Inr (nb', C1)" by blast
    from False Cons.prems e have
      "\<exists>(x, nb) \<in> set G. \<exists>(y, w) \<in> set nb.
          length (slice_at tops x) + length (slice_at tops y) < 4"
      by auto
    from Cons.IH[OF this] show ?thesis
      using e row by simp
  qed
qed

text \<open>
  When some neighbour is not a key, its top-2 list is the nil slice and \<open>A[3]\<close>
  panics.
\<close>

lemma makeConfidenceGraph_panics:
  assumes "\<not> closed G"
  shows "makeConfidenceGraph G = Inl IndexOutOfRange"
proof -
  from assms have "\<exists>(x, nb) \<in> set G. \<exists>(y, w) \<in> set nb. y \<notin> fst ` set G"
    unfolding closed_def list_all_iff by fastforce
  then obtain x nb y w where x: "(x, nb) \<in> set G" and y: "(y, w) \<in> set nb"
    and miss: "y \<notin> fst ` set G"
    by blast
  from miss have "map_of G y = None" by (simp add: map_of_eq_None_iff)
  then have "slice_at (twoLargest G) y = []" by (simp add: slice_at_twoLargest)
  moreover have "length (slice_at (twoLargest G) x) \<le> 2"
    by (simp add: slice_at_twoLargest split: option.split)
  ultimately have "length (slice_at (twoLargest G) x) + length (slice_at (twoLargest G) y) < 4"
    by simp
  with x y have "\<exists>(x, nb) \<in> set G. \<exists>(y, w) \<in> set nb.
      length (slice_at (twoLargest G) x) + length (slice_at (twoLargest G) y) < 4"
    by blast
  then show ?thesis
    unfolding makeConfidenceGraph_def by (rule confidencePass_Inl)
qed

text \<open>
  C1. Let \<open>G\<close> be a graph as Go holds it. When every neighbour in \<open>G\<close> is a key of \<open>G\<close>
  (so it is after makeGraph, which inserts every edge in both directions),
  makeConfidenceGraph returns, and the confidence graph holds an edge \<open>(x, y)\<close> if and
  only if \<open>G\<close> holds it and its weight divided by its confidence denominator exceeds 1;
  the weight stored for it is that quotient. Dividing the weights of \<open>G\<close> in place during
  the pass does not change any denominator. The denominator is the one of
  getSecondLargest on the top-2 lists of the two ends, as \<open>confidence_denominator\<close>
  words it. When some neighbour is not a key there is no confidence graph: the run
  panics.
\<close>

theorem makeConfidenceGraph_membership:
  assumes "is_map G"
  shows "(closed G \<longrightarrow>
            (\<exists>G' C. makeConfidenceGraph G = Inr (G', C)
              \<and> (\<forall>x y. edge_of C x y =
                    (case edge_of G x y of
                       None \<Rightarrow> None
                     | Some w \<Rightarrow>
                         if f64_gt (f64_div w (confidence_denominator G x y)) (Fin 1)
                         then Some (f64_div w (confidence_denominator G x y)) else None))))
    \<and> (\<not> closed G \<longrightarrow> makeConfidenceGraph G = Inl IndexOutOfRange)"
proof (intro conjI impI)
  assume cl: "closed G"
  from confidencePass_Inr[OF closed_slices[OF cl]] obtain G' C where
    run: "makeConfidenceGraph G = Inr (G', C)"
    unfolding makeConfidenceGraph_def by blast
  have "edge_of C x y =
          (case edge_of G x y of
             None \<Rightarrow> None
           | Some w \<Rightarrow>
               if f64_gt (f64_div w (confidence_denominator G x y)) (Fin 1)
               then Some (f64_div w (confidence_denominator G x y)) else None)" for x y
  proof (cases "edge_of G x y")
    case None
    then show ?thesis
      using confidencePass_edges[OF run[unfolded makeConfidenceGraph_def] assms, of x y]
      by (auto simp: edge_of_def confident_def split: option.splits)
  next
    case (Some w)
    then obtain nb where nb: "map_of G x = Some nb" "map_of nb y = Some w"
      by (auto simp: edge_of_def split: option.splits)
    then have "(x, nb) \<in> set G" "(y, w) \<in> set nb"
      by (auto dest: map_of_SomeD)
    with closed_slices[OF cl] have
      "4 \<le> length (slice_at (twoLargest G) x) + length (slice_at (twoLargest G) y)"
      by blast
    from getSecondLargest_Inr[OF this] have
      "getSecondLargest (slice_at (twoLargest G) x) (slice_at (twoLargest G) y)
         = Inr (confidence_denominator G x y)"
      by (simp add: confidence_denominator_def)
    then show ?thesis
      using Some nb confidencePass_edges[OF run[unfolded makeConfidenceGraph_def] assms, of x y]
      by (simp add: confident_def)
  qed
  then show "\<exists>G' C. makeConfidenceGraph G = Inr (G', C)
      \<and> (\<forall>x y. edge_of C x y =
            (case edge_of G x y of
               None \<Rightarrow> None
             | Some w \<Rightarrow>
                 if f64_gt (f64_div w (confidence_denominator G x y)) (Fin 1)
                 then Some (f64_div w (confidence_denominator G x y)) else None))"
    using run by blast
next
  assume "\<not> closed G"
  then show "makeConfidenceGraph G = Inl IndexOutOfRange"
    by (rule makeConfidenceGraph_panics)
qed

text \<open>
  The theorem on a graph of three ends: end 0 has the neighbours 2 (weight 6) and 4
  (weight 2). The edge between 0 and 2 has the denominator 2 and is kept with
  confidence 3; the edge between 0 and 4 has the quotient 1 and is dropped. And on a
  graph whose only edge leads to an end that is not a key: the run panics.
\<close>

lemma makeConfidenceGraph_example:
  "makeConfidenceGraph [(0, [(2, Fin 6), (4, Fin 2)]), (2, [(0, Fin 6)]), (4, [(0, Fin 2)])]
     = Inr ([(0, [(2, Fin 3), (4, Fin 1)]), (2, [(0, Fin 3)]), (4, [(0, Fin 1)])],
            [(0, [(2, Fin 3)]), (2, [(0, Fin 3)])])"
  by (simp add: makeConfidenceGraph_def twoLargest_def twoLargestOf_def slice_at_def
      getSecondLargest_def graph_set_def f64_gt_def f64_le_def f64_eq_def float64_less_def Let_def)

theorem makeConfidenceGraph_membership_witness:
  "is_map [(0, [(2, Fin 6), (4, Fin 2)]), (2, [(0, Fin 6)]), (4, [(0, Fin 2)])]
   \<and> closed [(0, [(2, Fin 6), (4, Fin 2)]), (2, [(0, Fin 6)]), (4, [(0, Fin 2)])]
   \<and> makeConfidenceGraph [(0, [(2, Fin 6), (4, Fin 2)]), (2, [(0, Fin 6)]), (4, [(0, Fin 2)])]
       = Inr ([(0, [(2, Fin 3), (4, Fin 1)]), (2, [(0, Fin 3)]), (4, [(0, Fin 1)])],
              [(0, [(2, Fin 3)]), (2, [(0, Fin 3)])])
   \<and> edge_of [(0, [(2, Fin 3)]), (2, [(0, Fin 3)])] 0 2
       = Some (f64_div (Fin 6)
           (confidence_denominator [(0, [(2, Fin 6), (4, Fin 2)]), (2, [(0, Fin 6)]), (4, [(0, Fin 2)])] 0 2))
   \<and> edge_of [(0, [(2, Fin 3)]), (2, [(0, Fin 3)])] 0 4 = None
   \<and> \<not> f64_gt (f64_div (Fin 2)
        (confidence_denominator [(0, [(2, Fin 6), (4, Fin 2)]), (2, [(0, Fin 6)]), (4, [(0, Fin 2)])] 0 4))
        (Fin 1)
   \<and> is_map [(0, [(2, Fin 6)])]
   \<and> \<not> closed [(0, [(2, Fin 6)])]
   \<and> makeConfidenceGraph [(0, [(2, Fin 6)])] = Inl IndexOutOfRange"
proof -
  let ?G = "[(0, [(2, Fin 6), (4, Fin 2)]), (2, [(0, Fin 6)]), (4, [(0, Fin 2)])] :: graph"
  let ?C = "[(0, [(2, Fin 3)]), (2, [(0, Fin 3)])] :: graph"
  have m: "is_map ?G" by (simp add: is_map_def)
  have c: "closed ?G" by (simp add: closed_def)
  from makeConfidenceGraph_membership[OF m] c obtain G' C where
    run: "makeConfidenceGraph ?G = Inr (G', C)"
    and edges: "\<And>x y. edge_of C x y =
          (case edge_of ?G x y of
             None \<Rightarrow> None
           | Some w \<Rightarrow>
               if f64_gt (f64_div w (confidence_denominator ?G x y)) (Fin 1)
               then Some (f64_div w (confidence_denominator ?G x y)) else None)"
    by blast
  from run have C: "C = ?C" by (simp add: makeConfidenceGraph_example)
  have e02: "edge_of ?G 0 2 = Some (Fin 6)" and e04: "edge_of ?G 0 4 = Some (Fin 2)"
    by (simp_all add: edge_of_def)
  have c02: "edge_of ?C 0 2 = Some (Fin 3)" and c04: "edge_of ?C 0 4 = None"
    by (simp_all add: edge_of_def)
  from edges[of 0 2] have kept: "edge_of ?C 0 2
       = Some (f64_div (Fin 6) (confidence_denominator ?G 0 2))"
    unfolding C e02 c02 by (simp split: if_splits)
  from edges[of 0 4] have dropped:
    "\<not> f64_gt (f64_div (Fin 2) (confidence_denominator ?G 0 4)) (Fin 1)"
    unfolding C e04 c04 by (simp split: if_splits)
  have m2: "is_map [(0, [(2, Fin 6)])]" by (simp add: is_map_def)
  have c2: "\<not> closed [(0, [(2, Fin 6)])]" by (simp add: closed_def)
  from makeConfidenceGraph_membership[OF m2] c2
  have panic: "makeConfidenceGraph [(0, [(2, Fin 6)])] = Inl IndexOutOfRange"
    by blast
  from m c makeConfidenceGraph_example kept c04 dropped m2 c2 panic show ?thesis
    by (intro conjI)
qed

subsection \<open>Enumeration order\<close>

text \<open>
  The first pass does not depend on the order in which the scores come: the step
  commutes on ranked states.
\<close>

lemma ranked_step: "ranked st \<Longrightarrow> ranked (largest_step st x)"
  by (cases st; cases x; cases "fst st"; cases "snd st")
    (auto simp: ranked_def f64_gt_def f64_le_def f64_eq_def)

lemma largest_step_commute:
  "ranked st \<Longrightarrow> largest_step (largest_step st x) y = largest_step (largest_step st y) x"
  by (cases st; cases x; cases y; cases "fst st"; cases "snd st")
    (auto simp: ranked_def f64_gt_def f64_le_def f64_eq_def)

lemma ranked_start [simp]: "ranked (Fin 0, Fin 0)"
  by (simp add: ranked_def f64_le_def f64_eq_def)

lemma foldl_largest_step_last:
  "ranked st \<Longrightarrow> foldl largest_step st (ys @ [x]) = foldl largest_step (largest_step st x) ys"
proof (induction ys arbitrary: st)
  case Nil
  show ?case by simp
next
  case (Cons y ys)
  have "foldl largest_step st ((y # ys) @ [x]) = foldl largest_step (largest_step st y) (ys @ [x])"
    by simp
  also have "\<dots> = foldl largest_step (largest_step (largest_step st y) x) ys"
    by (rule Cons.IH) (rule ranked_step[OF Cons.prems])
  also have "\<dots> = foldl largest_step (largest_step (largest_step st x) y) ys"
    by (simp only: largest_step_commute[OF Cons.prems])
  finally show ?case by simp
qed

lemma foldl_largest_step_mset:
  "ranked st \<Longrightarrow> mset xs = mset ys \<Longrightarrow> foldl largest_step st xs = foldl largest_step st ys"
proof (induction xs arbitrary: ys st)
  case Nil
  then show ?case by simp
next
  case (Cons x xs)
  from Cons.prems(2) have "x \<in> set ys"
    by (metis list.set_intros(1) mset_eq_setD)
  then obtain ys1 ys2 where ys: "ys = ys1 @ x # ys2"
    by (auto dest: split_list)
  with Cons.prems(2) have rest: "mset xs = mset (ys1 @ ys2)" by simp
  have "foldl largest_step st ys = foldl largest_step (foldl largest_step st (ys1 @ [x])) ys2"
    by (simp add: ys)
  also have "\<dots> = foldl largest_step (foldl largest_step (largest_step st x) ys1) ys2"
    by (simp only: foldl_largest_step_last[OF Cons.prems(1)])
  also have "\<dots> = foldl largest_step (largest_step st x) (ys1 @ ys2)"
    by simp
  also have "\<dots> = foldl largest_step (largest_step st x) xs"
    by (rule Cons.IH[symmetric, OF ranked_step[OF Cons.prems(1)] rest])
  finally show ?case by simp
qed

lemma twoLargestOf_mset:
  "mset (map snd nb) = mset (map snd nb') \<Longrightarrow> twoLargestOf nb = twoLargestOf nb'"
  unfolding twoLargestOf_def
  by (simp only: foldl_largest_step_mset[OF ranked_start, of "map snd nb" "map snd nb'"])

lemma map_of_mset:
  assumes "mset nb = mset nb'" and "distinct (map fst nb)"
  shows "map_of nb = map_of nb'"
proof -
  have "mset (map fst nb) = mset (map fst nb')" using assms(1) by (metis mset_map)
  then have "distinct (map fst nb')" using assms(2) by (metis distinct_count_atmost_1 set_mset_mset)
  moreover have "set nb = set nb'" using assms(1) by (rule mset_eq_setD)
  ultimately show ?thesis using assms(2) by (simp add: map_of_inject_set)
qed

lemma is_map_distinct: "is_map G \<Longrightarrow> map_of G x = Some nb \<Longrightarrow> distinct (map fst nb)"
  by (auto simp: is_map_def list_all_iff dest!: map_of_SomeD)

text \<open>
  The enumeration order does not matter: two enumerations of the same map give
  confidence graphs with the same edges and the same confidence values. So the model,
  which walks one list in both passes, loses nothing against Go, where every \<open>range\<close>
  may enumerate the map in another order.
\<close>

lemma makeConfidenceGraph_any_order:
  assumes "is_map G" and "is_map H"
    and "makeConfidenceGraph G = Inr (G', C)" and "makeConfidenceGraph H = Inr (H', D)"
    and "same_map G H"
  shows "edge_of C x y = edge_of D x y"
proof -
  have rel: "rel_option (\<lambda>nb nb'. mset nb = mset nb') (map_of G z) (map_of H z)" for z
    using assms(5) by (simp add: same_map_def)
  have tops: "slice_at (twoLargest G) z = slice_at (twoLargest H) z" for z
    using rel[of z]
    by (cases "map_of G z"; cases "map_of H z")
      (auto simp: slice_at_twoLargest intro!: twoLargestOf_mset)
  have edge: "edge_of G x y = edge_of H x y"
    using rel[of x] is_map_distinct[OF assms(1), of x]
    by (cases "map_of G x"; cases "map_of H x") (auto simp: edge_of_def dest: map_of_mset)
  have run: "getSecondLargest (slice_at (twoLargest G) x) (slice_at (twoLargest G) y)
      = getSecondLargest (slice_at (twoLargest H) x) (slice_at (twoLargest H) y)"
    by (simp add: tops)
  show ?thesis
    unfolding confidence_edges[OF assms(1) assms(3)] confidence_edges[OF assms(2) assms(4)]
      edge run ..
qed

subsection \<open>Unique extensions\<close>

text \<open>
  On finite scores the first pass keeps a largest one, and its second value is at least
  the smaller of any two scores.
\<close>

lemma foldl_largest_step_Fin:
  assumes "s \<le> f" and "\<forall>w \<in> set ws. \<exists>r. w = Fin r"
  shows "\<exists>f' s'. foldl largest_step (Fin f, Fin s) ws = (Fin f', Fin s')
    \<and> s' \<le> f' \<and> f \<le> f' \<and> s \<le> s'
    \<and> (\<forall>r. Fin r \<in> set ws \<longrightarrow> r \<le> f' \<and> min f r \<le> s')
    \<and> (\<forall>i j. i < j \<and> j < length ws \<longrightarrow>
          (\<forall>a b. ws ! i = Fin a \<and> ws ! j = Fin b \<longrightarrow> min a b \<le> s'))"
  using assms
proof (induction ws arbitrary: f s)
  case Nil
  then show ?case by simp
next
  case (Cons w ws)
  from Cons.prems(2) obtain r where w: "w = Fin r" by auto
  have "\<exists>f1 s1. largest_step (Fin f, Fin s) w = (Fin f1, Fin s1)
      \<and> s1 \<le> f1 \<and> f \<le> f1 \<and> s \<le> s1 \<and> r \<le> f1 \<and> min f r \<le> s1"
    using Cons.prems(1) w
    by (cases "f < r"; cases "s < r") (auto simp: f64_gt_def f64_le_def f64_eq_def)
  then obtain f1 s1 where st: "largest_step (Fin f, Fin s) w = (Fin f1, Fin s1)"
    and ord: "s1 \<le> f1" "f \<le> f1" "s \<le> s1" "r \<le> f1" "min f r \<le> s1"
    by blast
  from Cons.prems(2) have rest: "\<forall>w \<in> set ws. \<exists>r. w = Fin r" by simp
  from Cons.IH[OF ord(1) rest] obtain f' s' where
    run: "foldl largest_step (Fin f1, Fin s1) ws = (Fin f', Fin s')"
    and o: "s' \<le> f'" "f1 \<le> f'" "s1 \<le> s'"
    and each: "\<forall>r. Fin r \<in> set ws \<longrightarrow> r \<le> f' \<and> min f1 r \<le> s'"
    and pairs: "\<forall>i j. i < j \<and> j < length ws \<longrightarrow>
          (\<forall>a b. ws ! i = Fin a \<and> ws ! j = Fin b \<longrightarrow> min a b \<le> s')"
    by blast
  have "foldl largest_step (Fin f, Fin s) (w # ws) = (Fin f', Fin s')"
    using st run by simp
  moreover have "\<forall>q. Fin q \<in> set (w # ws) \<longrightarrow> q \<le> f' \<and> min f q \<le> s'"
  proof (intro allI impI)
    fix q assume "Fin q \<in> set (w # ws)"
    then consider "q = r" | "Fin q \<in> set ws" using w by auto
    then show "q \<le> f' \<and> min f q \<le> s'"
    proof cases
      case 1
      then show ?thesis using ord o by linarith
    next
      case 2
      then have "q \<le> f'" "min f1 q \<le> s'" using each by auto
      then show ?thesis using ord by (simp add: min_def split: if_splits)
    qed
  qed
  moreover have "\<forall>i j. i < j \<and> j < length (w # ws) \<longrightarrow>
          (\<forall>a b. (w # ws) ! i = Fin a \<and> (w # ws) ! j = Fin b \<longrightarrow> min a b \<le> s')"
  proof (intro allI impI)
    fix i j a b
    assume ij: "i < j \<and> j < length (w # ws)" and ab: "(w # ws) ! i = Fin a \<and> (w # ws) ! j = Fin b"
    then obtain j' where j: "j = Suc j'" "j' < length ws" by (cases j) auto
    show "min a b \<le> s'"
    proof (cases i)
      case 0
      then have "a = r" using ab w by simp
      moreover have "Fin b \<in> set ws" using ab j by (metis nth_Cons_Suc nth_mem)
      then have "min f1 b \<le> s'" using each by blast
      ultimately show ?thesis using ord(4) by (simp add: min_def split: if_splits)
    next
      case (Suc i')
      then show ?thesis using pairs ij ab j by auto
    qed
  qed
  ultimately show ?case using o ord by (intro exI[of _ f'] exI[of _ s']) auto
qed

lemma twoLargestOf_Fin:
  assumes "\<forall>(y, w) \<in> set nb. \<exists>r. w = Fin r \<and> 0 < r" and "distinct (map fst nb)"
  shows "\<exists>f s. twoLargestOf nb = [Fin f, Fin s] \<and> 0 \<le> s \<and> s \<le> f
    \<and> (\<forall>y r. map_of nb y = Some (Fin r) \<longrightarrow> r \<le> f)
    \<and> (\<forall>y z a b. y \<noteq> z \<and> map_of nb y = Some (Fin a) \<and> map_of nb z = Some (Fin b)
          \<longrightarrow> min a b \<le> s)"
proof -
  have fin: "\<forall>w \<in> set (map snd nb). \<exists>r. w = Fin r" using assms(1) by fastforce
  from foldl_largest_step_Fin[OF order_refl fin, of 0] obtain f s where
    run: "foldl largest_step (Fin 0, Fin 0) (map snd nb) = (Fin f, Fin s)"
    and o: "s \<le> f" "0 \<le> f" "0 \<le> s"
    and each: "\<forall>r. Fin r \<in> set (map snd nb) \<longrightarrow> r \<le> f \<and> min 0 r \<le> s"
    and pairs: "\<forall>i j. i < j \<and> j < length (map snd nb) \<longrightarrow>
          (\<forall>a b. map snd nb ! i = Fin a \<and> map snd nb ! j = Fin b \<longrightarrow> min a b \<le> s)"
    by blast
  have "\<forall>y r. map_of nb y = Some (Fin r) \<longrightarrow> r \<le> f"
  proof (intro allI impI)
    fix y r assume "map_of nb y = Some (Fin r)"
    then have "(y, Fin r) \<in> set nb" by (rule map_of_SomeD)
    then have "Fin r \<in> set (map snd nb)" by force
    then show "r \<le> f" using each by blast
  qed
  moreover have "\<forall>y z a b. y \<noteq> z \<and> map_of nb y = Some (Fin a) \<and> map_of nb z = Some (Fin b)
          \<longrightarrow> min a b \<le> s"
  proof (intro allI impI)
    fix y z a b
    assume h: "y \<noteq> z \<and> map_of nb y = Some (Fin a) \<and> map_of nb z = Some (Fin b)"
    then have "(y, Fin a) \<in> set nb" "(z, Fin b) \<in> set nb" by (auto dest: map_of_SomeD)
    then obtain i j where i: "i < length nb" "nb ! i = (y, Fin a)"
      and j: "j < length nb" "nb ! j = (z, Fin b)"
      by (metis in_set_conv_nth)
    have ne: "i \<noteq> j" using h i j by auto
    have vi: "map snd nb ! i = Fin a" using i by simp
    have vj: "map snd nb ! j = Fin b" using j by simp
    show "min a b \<le> s"
    proof (cases "i < j")
      case True
      then show ?thesis using pairs vi vj j(1) by (metis length_map)
    next
      case False
      then have "j < i" using ne by simp
      then have "min b a \<le> s" using pairs vi vj i(1) by (metis length_map)
      then show ?thesis by (simp add: min.commute)
    qed
  qed
  ultimately show ?thesis using run o by (simp add: twoLargestOf_def)
qed

lemma Float64s_four:
  assumes "v \<le> a" "v \<le> b" "v \<le> c"
  shows "\<exists>p q t u. Float64s [Fin a, Fin b, Fin c, Fin e] = [Fin p, Fin q, Fin t, Fin u]
     \<and> v \<le> q \<and> v \<le> t"
  using assms by (auto simp: float64_less_def)

text \<open>
  When an End \<open>x\<close> has two neighbours, the denominator of its edge to the lighter one is
  at least the weight of that edge: three of the four values that getSecondLargest sorts
  are.
\<close>

lemma second_largest_bound:
  assumes m: "is_map G" and sym: "symmetric_weights G" and pos: "positive_weights G"
    and xy: "edge_of G x y = Some (Fin a)" and xz: "edge_of G x z = Some (Fin b)"
    and ne: "y \<noteq> z" and le: "b \<le> a"
  shows "\<exists>d. getSecondLargest (slice_at (twoLargest G) x) (slice_at (twoLargest G) z) = Inr (Fin d)
    \<and> b \<le> d"
proof -
  from xy obtain nx where nx: "map_of G x = Some nx" "map_of nx y = Some (Fin a)"
    by (auto simp: edge_of_def split: option.splits)
  with xz have nxz: "map_of nx z = Some (Fin b)" by (simp add: edge_of_def)
  from sym xz have "edge_of G z x = Some (Fin b)" by (simp add: symmetric_weights_def)
  then obtain nz where nz: "map_of G z = Some nz" "map_of nz x = Some (Fin b)"
    by (auto simp: edge_of_def split: option.splits)
  have posx: "\<forall>(y, w) \<in> set nx. \<exists>r. w = Fin r \<and> 0 < r"
  proof (intro ballI, clarify)
    fix y' w assume "(y', w) \<in> set nx"
    then have "map_of nx y' = Some w" using is_map_distinct[OF m nx(1)] by simp
    then have "edge_of G x y' = Some w" using nx(1) by (simp add: edge_of_def)
    then show "\<exists>r. w = Fin r \<and> 0 < r" using pos by (simp add: positive_weights_def)
  qed
  have posz: "\<forall>(y, w) \<in> set nz. \<exists>r. w = Fin r \<and> 0 < r"
  proof (intro ballI, clarify)
    fix y' w assume "(y', w) \<in> set nz"
    then have "map_of nz y' = Some w" using is_map_distinct[OF m nz(1)] by simp
    then have "edge_of G z y' = Some w" using nz(1) by (simp add: edge_of_def)
    then show "\<exists>r. w = Fin r \<and> 0 < r" using pos by (simp add: positive_weights_def)
  qed
  from twoLargestOf_Fin[OF posx is_map_distinct[OF m nx(1)]] obtain fx sx where
    tx: "twoLargestOf nx = [Fin fx, Fin sx]" and ox: "sx \<le> fx"
    and px: "\<forall>y z a b. y \<noteq> z \<and> map_of nx y = Some (Fin a) \<and> map_of nx z = Some (Fin b)
          \<longrightarrow> min a b \<le> sx"
    by blast
  from twoLargestOf_Fin[OF posz is_map_distinct[OF m nz(1)]] obtain fz sz where
    tz: "twoLargestOf nz = [Fin fz, Fin sz]"
    and ez: "\<forall>y r. map_of nz y = Some (Fin r) \<longrightarrow> r \<le> fz"
    by blast
  from px ne nx(2) nxz have "min a b \<le> sx" by blast
  with le have b1: "b \<le> sx" by simp
  with ox have b0: "b \<le> fx" by simp
  from ez nz(2) have b2: "b \<le> fz" by blast
  from Float64s_four[OF b0 b1 b2, of sz] obtain p q t u where
    A: "Float64s [Fin fx, Fin sx, Fin fz, Fin sz] = [Fin p, Fin q, Fin t, Fin u]"
    and bq: "b \<le> q" and bt: "b \<le> t"
    by blast
  have sl: "slice_at (twoLargest G) x @ slice_at (twoLargest G) z = [Fin fx, Fin sx, Fin fz, Fin sz]"
    using nx(1) nz(1) tx tz by (simp add: slice_at_twoLargest)
  show ?thesis
    unfolding getSecondLargest_def sl A using bq bt by (simp add: Let_def)
qed

text \<open>
  Hence at most one edge of an End has a confidence above 1.
\<close>

lemma confidence_edge_unique:
  assumes m: "is_map G" and sym: "symmetric_weights G" and pos: "positive_weights G"
    and run: "makeConfidenceGraph G = Inr (G', C)"
    and cy: "edge_of C x y = Some p" and cz: "edge_of C x z = Some q"
  shows "y = z"
proof (rule ccontr)
  assume ne: "y \<noteq> z"
  have one: "False"
    if xy: "edge_of G x y = Some (Fin a)" and xz: "edge_of G x z = Some (Fin b)"
      and ne: "y \<noteq> z" and le: "b \<le> a" and c: "edge_of C x z = Some q" and b: "0 < b"
    for y z a b q
  proof -
    from second_largest_bound[OF m sym pos xy xz ne le] obtain d where
      d: "getSecondLargest (slice_at (twoLargest G) x) (slice_at (twoLargest G) z) = Inr (Fin d)"
      and bd: "b \<le> d"
      by blast
    from bd b have "\<not> f64_gt (f64_div (Fin b) (Fin d)) (Fin 1)"
      by (simp add: f64_gt_def)
    then have "edge_of C x z = None"
      using confidence_edges[OF m run, of x z] xz d by simp
    with c show False by simp
  qed
  from cy confidence_edges[OF m run, of x y] obtain wy where wy: "edge_of G x y = Some wy"
    by (auto split: option.splits)
  from cz confidence_edges[OF m run, of x z] obtain wz where wz: "edge_of G x z = Some wz"
    by (auto split: option.splits)
  from pos wy obtain a where a: "wy = Fin a" "0 < a" unfolding positive_weights_def by blast
  from pos wz obtain b where b: "wz = Fin b" "0 < b" unfolding positive_weights_def by blast
  show False
  proof (cases "b \<le> a")
    case True
    then show ?thesis using one[of y a z b q] wy wz a b ne cz by simp
  next
    case False
    then have "a \<le> b" by simp
    then show ?thesis using one[of z b y a p] wy wz a b ne cy by simp
  qed
qed

text \<open>The confidence graph is a map as Go holds it.\<close>

lemma is_map_update:
  "is_map C \<Longrightarrow> distinct (map fst nb) \<Longrightarrow> is_map (AList.update x nb C)"
proof (induction C)
  case Nil
  then show ?case by (simp add: is_map_def)
next
  case (Cons e C)
  then show ?case
    by (cases e) (auto simp: is_map_def distinct_update dom_update)
qed

lemma is_map_graph_set: "is_map C \<Longrightarrow> is_map (graph_set C x y v)"
proof (cases "map_of C x")
  case None
  assume "is_map C"
  moreover have "x \<notin> fst ` set C" using None by (simp add: map_of_eq_None_iff)
  ultimately show ?thesis
    by (simp add: graph_set_def None is_map_def)
next
  case (Some nb)
  assume m: "is_map C"
  then have "distinct (map fst (AList.update y v nb))"
    using is_map_distinct[OF m Some] by (simp add: distinct_update)
  then show ?thesis using Some m by (simp add: graph_set_def is_map_update)
qed

lemma is_map_confidenceRow:
  "confidenceRow tops x nb C = Inr (nb', C') \<Longrightarrow> is_map C \<Longrightarrow> is_map C'"
proof (induction nb arbitrary: C nb' C')
  case Nil
  then show ?case by simp
next
  case (Cons e nb)
  obtain y w where e: "e = (y, w)" by (cases e)
  from Cons.prems(1) e obtain d where d: "getSecondLargest (slice_at tops x) (slice_at tops y) = Inr d"
    by (auto split: sum.splits)
  let ?q = "f64_div w d"
  let ?C1 = "if f64_gt ?q (Fin 1) then graph_set C x y ?q else C"
  from Cons.prems(1) e d obtain nb1 where
    rest: "confidenceRow tops x nb ?C1 = Inr (nb1, C')"
    by (auto simp: Let_def split: sum.splits)
  have "is_map ?C1" using Cons.prems(2) by (simp add: is_map_graph_set)
  then show ?case by (rule Cons.IH[OF rest])
qed

lemma is_map_confidencePass:
  "confidencePass tops G C = Inr (G', C') \<Longrightarrow> is_map C \<Longrightarrow> is_map C'"
proof (induction G arbitrary: C G' C')
  case Nil
  then show ?case by simp
next
  case (Cons e G)
  obtain a nb where e: "e = (a, nb)" by (cases e)
  from Cons.prems(1) e obtain nb1 C1 G1 where
    row: "confidenceRow tops a nb C = Inr (nb1, C1)"
    and rest: "confidencePass tops G C1 = Inr (G1, C')"
    by (auto split: sum.splits)
  show ?case by (rule Cons.IH[OF rest is_map_confidenceRow[OF row Cons.prems(2)]])
qed

lemma is_map_confidence: "makeConfidenceGraph G = Inr (G', C) \<Longrightarrow> is_map C"
  unfolding makeConfidenceGraph_def by (erule is_map_confidencePass) (simp add: is_map_def)

text \<open>A symmetric map is closed, so makeConfidenceGraph returns on it.\<close>

lemma symmetric_closed:
  assumes m: "is_map G" and sym: "symmetric_weights G"
  shows "closed G"
  unfolding closed_def list_all_iff
proof (intro ballI, clarify)
  fix x nb y w
  assume x: "(x, nb) \<in> set G" and y: "(y, w) \<in> set nb"
  from m x have gx: "map_of G x = Some nb" by (simp add: is_map_def)
  from is_map_distinct[OF m gx] y have "map_of nb y = Some w" by simp
  with gx have "edge_of G x y = Some w" by (simp add: edge_of_def)
  with sym have "edge_of G y x = Some w" by (simp add: symmetric_weights_def)
  then have "map_of G y \<noteq> None" by (auto simp: edge_of_def split: option.splits)
  then show "y \<in> fst ` set G" by (simp add: map_of_eq_None_iff)
qed

text \<open>
  So the neighbour map that dfs reads from such a confidence graph has one entry: the
  walk has one edge to follow.
\<close>

lemma confidence_single_neighbor:
  assumes m: "is_map G" and sym: "symmetric_weights G" and pos: "positive_weights G"
    and run: "makeConfidenceGraph G = Inr (G', C)"
    and nb: "map_of C x = Some ((y, w) # rest)"
  shows "rest = []"
proof (cases rest)
  case Nil
  then show ?thesis .
next
  case (Cons e rest')
  obtain z v where e: "e = (z, v)" by (cases e)
  have d: "distinct (map fst ((y, w) # rest))"
    by (rule is_map_distinct[OF is_map_confidence[OF run] nb])
  then have ne: "y \<noteq> z" using Cons e by auto
  have "edge_of C x y = Some w" using nb by (simp add: edge_of_def)
  moreover have "edge_of C x z = Some v" using nb Cons e ne by (simp add: edge_of_def)
  ultimately have "y = z" by (rule confidence_edge_unique[OF m sym pos run])
  with ne show ?thesis by simp
qed

text \<open>The graph of three ends above is such a graph.\<close>

lemma symmetric_positive_example:
  "is_map [(0, [(2, Fin 6), (4, Fin 2)]), (2, [(0, Fin 6)]), (4, [(0, Fin 2)])]
   \<and> symmetric_weights [(0, [(2, Fin 6), (4, Fin 2)]), (2, [(0, Fin 6)]), (4, [(0, Fin 2)])]
   \<and> positive_weights [(0, [(2, Fin 6), (4, Fin 2)]), (2, [(0, Fin 6)]), (4, [(0, Fin 2)])]"
  by (auto simp: is_map_def symmetric_weights_def positive_weights_def edge_of_def split: if_splits)

section \<open>Properties of makeGraph\<close>

lemma f64_scale_zero [simp]: "f64_scale c (Fin 0) = Fin 0"
  by simp

lemma f64_scale_eq_NaN [simp]: "(f64_scale c x = NaN) = (x = NaN)"
  by (cases x) auto

lemma f64_scale_inj: "0 < c \<Longrightarrow> (f64_scale c x = f64_scale c y) = (x = y)"
  by (cases x; cases y) auto

lemma f64_lt_scale [simp]: "0 < c \<Longrightarrow> f64_lt (f64_scale c x) (f64_scale c y) = f64_lt x y"
  by (cases x; cases y) auto

lemma f64_gt_scale [simp]: "0 < c \<Longrightarrow> f64_gt (f64_scale c x) (f64_scale c y) = f64_gt x y"
  by (simp add: f64_gt_def)

lemma f64_eq_scale [simp]: "0 < c \<Longrightarrow> f64_eq (f64_scale c x) (f64_scale c y) = f64_eq x y"
  by (simp add: f64_eq_def f64_scale_inj)

lemma f64_le_scale [simp]: "0 < c \<Longrightarrow> f64_le (f64_scale c x) (f64_scale c y) = f64_le x y"
  by (simp add: f64_le_def)

lemma float64_less_scale [simp]:
  "0 < c \<Longrightarrow> float64_less (f64_scale c x) (f64_scale c y) = float64_less x y"
  by (simp add: float64_less_def)

lemma f64_gt_scale_zero [simp]: "0 < c \<Longrightarrow> f64_gt (f64_scale c x) (Fin 0) = f64_gt x (Fin 0)"
  using f64_gt_scale[of c x "Fin 0"] by simp

lemma f64_div_scale [simp]: "0 < c \<Longrightarrow> f64_div (f64_scale c x) (f64_scale c y) = f64_div x y"
  by (cases x; cases y) (auto simp: zero_less_mult_iff mult_less_0_iff zero_le_mult_iff)

lemma f64_div_scale_Fin: "0 < c \<Longrightarrow> f64_div (f64_scale c x) (Fin l) = f64_scale c (f64_div x (Fin l))"
  by (cases x) (auto simp: zero_less_mult_iff mult_less_0_iff)

lemma f64_add_scale: "f64_add (f64_scale c x) (Fin (c * s)) = f64_scale c (f64_add x (Fin s))"
  by (cases x) (auto simp: distrib_left)

lemma float64_insert_scale:
  "0 < c \<Longrightarrow> float64_insert (f64_scale c x) (map (f64_scale c) xs)
     = map (f64_scale c) (float64_insert x xs)"
  by (induction xs) auto

lemma Float64s_scale: "0 < c \<Longrightarrow> Float64s (map (f64_scale c) xs) = map (f64_scale c) (Float64s xs)"
  by (induction xs) (auto simp: float64_insert_scale)

lemma largest_step_scale:
  "0 < c \<Longrightarrow> largest_step (f64_scale c f, f64_scale c s) (f64_scale c x)
     = map_prod (f64_scale c) (f64_scale c) (largest_step (f, s) x)"
  by simp

lemma foldl_largest_step_scale:
  "0 < c \<Longrightarrow> foldl largest_step (f64_scale c f, f64_scale c s) (map (f64_scale c) ws)
     = map_prod (f64_scale c) (f64_scale c) (foldl largest_step (f, s) ws)"
proof (induction ws arbitrary: f s)
  case Nil
  show ?case by simp
next
  case (Cons w ws)
  obtain f' s' where st: "largest_step (f, s) w = (f', s')"
    by (cases "largest_step (f, s) w")
  with Cons.prems have "largest_step (f64_scale c f, f64_scale c s) (f64_scale c w)
      = (f64_scale c f', f64_scale c s')"
    by (simp only: largest_step_scale map_prod_simp)
  then show ?case
    using Cons.IH[OF Cons.prems, of f' s'] st by (simp del: largest_step.simps)
qed

lemma twoLargestOf_scale:
  "0 < c \<Longrightarrow> twoLargestOf (scale_neighbors c nb) = map (f64_scale c) (twoLargestOf nb)"
proof -
  assume c: "0 < c"
  have "map snd (scale_neighbors c nb) = map (f64_scale c) (map snd nb)"
    by (simp add: scale_neighbors_def case_prod_beta)
  moreover have "foldl largest_step (Fin 0, Fin 0) (map (f64_scale c) (map snd nb))
      = map_prod (f64_scale c) (f64_scale c) (foldl largest_step (Fin 0, Fin 0) (map snd nb))"
    using foldl_largest_step_scale[OF c, of "Fin 0" "Fin 0" "map snd nb"]
    by (simp del: map_map)
  ultimately show ?thesis
    by (simp add: twoLargestOf_def split: prod.split del: map_map)
qed

lemma map_of_scale_graph:
  "map_of (scale_graph c G) x = map_option (scale_neighbors c) (map_of G x)"
  by (induction G) (auto simp: scale_graph_def)

lemma map_of_scale_neighbors:
  "map_of (scale_neighbors c nb) y = map_option (f64_scale c) (map_of nb y)"
  by (induction nb) (auto simp: scale_neighbors_def)

lemma slice_at_scale:
  "0 < c \<Longrightarrow> slice_at (twoLargest (scale_graph c G)) x
     = map (f64_scale c) (slice_at (twoLargest G) x)"
  by (simp add: slice_at_twoLargest map_of_scale_graph twoLargestOf_scale split: option.split)

lemma getSecondLargest_scale:
  assumes "0 < c"
  shows "getSecondLargest (map (f64_scale c) xs) (map (f64_scale c) ys)
     = map_sum id (f64_scale c) (getSecondLargest xs ys)"
proof (cases "length xs + length ys < 4")
  case True
  then show ?thesis by (simp add: getSecondLargest_def Let_def)
next
  case False
  have A: "Float64s (map (f64_scale c) xs @ map (f64_scale c) ys)
      = map (f64_scale c) (Float64s (xs @ ys))"
    using Float64s_scale[OF assms, of "xs @ ys"] by simp
  from False have len: "3 < length (Float64s (xs @ ys))" by simp
  then have n: "map (f64_scale c) (Float64s (xs @ ys)) ! 3 = f64_scale c (Float64s (xs @ ys) ! 3)"
    "map (f64_scale c) (Float64s (xs @ ys)) ! 2 = f64_scale c (Float64s (xs @ ys) ! 2)"
    "map (f64_scale c) (Float64s (xs @ ys)) ! 1 = f64_scale c (Float64s (xs @ ys) ! 1)"
    by (simp_all only: nth_map)
  show ?thesis
    using False assms unfolding getSecondLargest_def A Let_def n
    by simp
qed

lemma confidenceRow_scale:
  assumes "0 < c" and "\<And>z. slice_at tops' z = map (f64_scale c) (slice_at tops z)"
  shows "confidenceRow tops' x (scale_neighbors c nb) C = confidenceRow tops x nb C"
proof (induction nb arbitrary: C)
  case Nil
  show ?case by (simp add: scale_neighbors_def)
next
  case (Cons e nb)
  obtain y w where e: "e = (y, w)" by (cases e)
  have sn: "scale_neighbors c (e # nb) = (y, f64_scale c w) # scale_neighbors c nb"
    using e by (simp add: scale_neighbors_def)
  have g: "getSecondLargest (slice_at tops' x) (slice_at tops' y)
      = map_sum id (f64_scale c) (getSecondLargest (slice_at tops x) (slice_at tops y))"
    by (simp add: assms(2) getSecondLargest_scale[OF assms(1)])
  show ?case
  proof (cases "getSecondLargest (slice_at tops x) (slice_at tops y)")
    case (Inl err)
    then show ?thesis using g e sn by simp
  next
    case (Inr d)
    then show ?thesis
      using g e sn assms(1) Cons.IH by (simp add: Let_def)
  qed
qed

lemma confidencePass_scale:
  assumes "0 < c" and "\<And>z. slice_at tops' z = map (f64_scale c) (slice_at tops z)"
  shows "confidencePass tops' (scale_graph c G) C = confidencePass tops G C"
proof (induction G arbitrary: C)
  case Nil
  show ?case by (simp add: scale_graph_def)
next
  case (Cons e G)
  obtain x nb where e: "e = (x, nb)" by (cases e)
  have sg: "scale_graph c ((x, nb) # G) = (x, scale_neighbors c nb) # scale_graph c G"
    by (simp add: scale_graph_def)
  show ?case
    unfolding e sg by (simp add: confidenceRow_scale[OF assms] Cons.IH split: sum.split)
qed

lemma makeConfidenceGraph_scale:
  "0 < c \<Longrightarrow> makeConfidenceGraph (scale_graph c G) = makeConfidenceGraph G"
  unfolding makeConfidenceGraph_def
  by (rule confidencePass_scale) (simp_all add: slice_at_scale)

lemma normalize_scale:
  assumes "0 < c"
  shows "normalize plen (scale_graph c G) = scale_graph c (normalize plen G)"
proof -
  have "map (\<lambda>(y, score). (y, f64_div score (Fin l))) (scale_neighbors c nb)
      = scale_neighbors c (map (\<lambda>(y, score). (y, f64_div score (Fin l))) nb)" for l nb
    by (induction nb) (auto simp: scale_neighbors_def f64_div_scale_Fin[OF assms])
  then have row: "map (\<lambda>(y, score). (y, f64_div score (Fin (l y)))) (scale_neighbors c nb)
      = scale_neighbors c (map (\<lambda>(y, score). (y, f64_div score (Fin (l y)))) nb)" for l nb
    by (induction nb) (auto simp: scale_neighbors_def f64_div_scale_Fin[OF assms])
  show ?thesis
    by (induction G) (auto simp: normalize_def scale_graph_def row)
qed

lemma edge_of_scale:
  "edge_of (scale_graph c G) x y = map_option (f64_scale c) (edge_of G x y)"
  by (simp add: edge_of_def map_of_scale_graph map_of_scale_neighbors split: option.split)

lemma update_scale_neighbors:
  "AList.update y (f64_scale c v) (scale_neighbors c nb) = scale_neighbors c (AList.update y v nb)"
  by (induction nb) (auto simp: scale_neighbors_def)

lemma update_scale_graph:
  "AList.update x (scale_neighbors c nb) (scale_graph c G) = scale_graph c (AList.update x nb G)"
  by (induction G) (auto simp: scale_graph_def)

lemma scale_graph_Nil [simp]: "scale_graph c [] = []"
  by (simp add: scale_graph_def)

lemma scale_graph_snoc:
  "scale_graph c (G @ [(x, [(y, v)])]) = scale_graph c G @ [(x, [(y, f64_scale c v)])]"
  by (simp add: scale_graph_def scale_neighbors_def)

lemma graph_set_scale:
  "graph_set (scale_graph c G) x y (f64_scale c v) = scale_graph c (graph_set G x y v)"
proof (cases "map_of G x")
  case None
  then show ?thesis
    by (simp add: graph_set_def map_of_scale_graph scale_graph_snoc)
next
  case (Some nb)
  then show ?thesis
    by (simp add: graph_set_def map_of_scale_graph update_scale_neighbors update_scale_graph)
qed

lemma insertEdge_scale:
  "insertEdge (c * s) (scale_graph c G) x y = scale_graph c (insertEdge s G x y)"
proof -
  have "f64_add (case edge_of (scale_graph c G) x y of None \<Rightarrow> Fin 0 | Some w \<Rightarrow> w) (Fin (c * s))
      = f64_scale c (f64_add (case edge_of G x y of None \<Rightarrow> Fin 0 | Some w \<Rightarrow> w) (Fin s))"
    by (simp add: edge_of_scale f64_add_scale[symmetric] split: option.split)
  then show ?thesis
    by (simp add: insertEdge_def graph_set_scale)
qed

lemma link_step_scale:
  "link_step (c * s) sister (scale_graph c G) l = scale_graph c (link_step s sister G l)"
  by (cases l) (simp add: link_step_def insertEdge_scale)

lemma links_scale:
  "foldl (link_step (c * s) sister) (scale_graph c G) links
     = scale_graph c (foldl (link_step s sister) G links)"
  by (induction links arbitrary: G) (simp_all add: link_step_scale)

lemma makeGraph_scale:
  "0 < c \<Longrightarrow> makeGraph (c * score) sister plen links
     = scale_graph c (makeGraph score sister plen links)"
  using links_scale[of c score sister "[]" links]
  by (simp add: makeGraph_def normalize_scale)

text \<open>
  With the modelled insertEdge: when every link adds \<open>c * score\<close> instead of \<open>score\<close>,
  makeGraph builds the same graph with every weight multiplied by \<open>c\<close>.
\<close>

lemma makeGraph_scale_invariant:
  assumes "0 < c"
  shows "makeConfidenceGraph (makeGraph (c * score) sister plen links)
       = makeConfidenceGraph (makeGraph score sister plen links)"
  using assms by (simp add: makeGraph_scale makeConfidenceGraph_scale)





section \<open>Properties of breakCycle\<close>

lemma f64_lt_Fin_iff: "f64_lt x (Fin m) = (x = NInf \<or> (\<exists>w. x = Fin w \<and> w < m))"
  by (cases x) auto

lemma f64_gt_Fin_iff: "f64_gt x (Fin m) = (x = PInf \<or> (\<exists>w. x = Fin w \<and> m < w))"
  by (cases x) (auto simp: f64_gt_def)

lemma candidate_iff:
  "(f64_gt x (Fin 1) \<and> f64_lt x (Fin m)) = (\<exists>w. x = Fin w \<and> 1 < w \<and> w < m)"
  by (auto simp: f64_lt_Fin_iff f64_gt_Fin_iff)

text \<open>The loop leaves its state alone when no edge passes the test.\<close>

lemma weakest_none:
  "\<forall>e \<in> set es. \<not> (f64_gt (weight e) (Fin 1) \<and> f64_lt (weight e) mW)
   \<Longrightarrow> weakest es i (mI, mW) = (mI, mW)"
  by (induction es arbitrary: i) auto

text \<open>
  When an edge passes the test, the loop ends at the first edge of least weight among
  the edges heavier than 1.
\<close>

lemma weakest_some:
  "\<exists>e \<in> set es. f64_gt (weight e) (Fin 1) \<and> f64_lt (weight e) (Fin m)
   \<Longrightarrow> \<exists>k w. k < length es \<and> weakest es i (mI, Fin m) = (i + k, Fin w)
        \<and> weight (es ! k) = Fin w \<and> 1 < w \<and> w < m
        \<and> (\<forall>j<length es. f64_gt (weight (es ! j)) (Fin 1) \<longrightarrow> f64_le (Fin w) (weight (es ! j)))
        \<and> (\<forall>j<k. f64_gt (weight (es ! j)) (Fin 1) \<longrightarrow> f64_lt (Fin w) (weight (es ! j)))"
proof (induction es arbitrary: i mI m)
  case Nil
  then show ?case by simp
next
  case (Cons e es)
  show ?case
  proof (cases "f64_gt (weight e) (Fin 1) \<and> f64_lt (weight e) (Fin m)")
    case True
    then obtain w where w: "weight e = Fin w" "1 < w" "w < m"
      by (auto simp: candidate_iff)
    show ?thesis
    proof (cases "\<exists>e' \<in> set es. f64_gt (weight e') (Fin 1) \<and> f64_lt (weight e') (Fin w)")
      case True
      from Cons.IH[OF True, of "Suc i" i] obtain k w' where k: "k < length es"
        "weakest es (Suc i) (i, Fin w) = (Suc i + k, Fin w')"
        "weight (es ! k) = Fin w'" "1 < w'" "w' < w"
        "\<forall>j<length es. f64_gt (weight (es ! j)) (Fin 1) \<longrightarrow> f64_le (Fin w') (weight (es ! j))"
        "\<forall>j<k. f64_gt (weight (es ! j)) (Fin 1) \<longrightarrow> f64_lt (Fin w') (weight (es ! j))"
        by blast
      show ?thesis
        apply (rule exI[of _ "Suc k"], rule exI[of _ w'])
        using k w by (auto simp: f64_gt_def f64_le_def f64_eq_def nth_Cons' less_Suc_eq_0_disj)
    next
      case False
      then have stay: "weakest es (Suc i) (i, Fin w) = (i, Fin w)"
        by (intro weakest_none) auto
      have least: "\<forall>j<length es. f64_gt (weight (es ! j)) (Fin 1) \<longrightarrow> f64_le (Fin w) (weight (es ! j))"
      proof (intro allI impI)
        fix j assume j: "j < length es" "f64_gt (weight (es ! j)) (Fin 1)"
        then have "\<not> f64_lt (weight (es ! j)) (Fin w)" using False by auto
        then show "f64_le (Fin w) (weight (es ! j))"
          using j(2) by (cases "weight (es ! j)") (auto simp: f64_gt_def f64_le_def f64_eq_def)
      qed
      show ?thesis
        apply (rule exI[of _ 0], rule exI[of _ w])
        using w stay least by (auto simp: f64_gt_def f64_le_def f64_eq_def nth_Cons')
    qed
  next
    case False
    then have ex: "\<exists>e' \<in> set es. f64_gt (weight e') (Fin 1) \<and> f64_lt (weight e') (Fin m)"
      using Cons.prems by auto
    from Cons.IH[OF ex, of "Suc i" mI] obtain k w where k: "k < length es"
        "weakest es (Suc i) (mI, Fin m) = (Suc i + k, Fin w)"
        "weight (es ! k) = Fin w" "1 < w" "w < m"
        "\<forall>j<length es. f64_gt (weight (es ! j)) (Fin 1) \<longrightarrow> f64_le (Fin w) (weight (es ! j))"
        "\<forall>j<k. f64_gt (weight (es ! j)) (Fin 1) \<longrightarrow> f64_lt (Fin w) (weight (es ! j))"
      by blast
    have e: "f64_gt (weight e) (Fin 1) \<Longrightarrow> f64_lt (Fin w) (weight e)"
      using False k(5) by (cases "weight e") (auto simp: f64_gt_def)
    show ?thesis
      apply (rule exI[of _ "Suc k"], rule exI[of _ w])
      using k False e by (auto simp: f64_le_def nth_Cons' less_Suc_eq_0_disj)
  qed
qed

lemma minI_of_cases:
  "(\<forall>e \<in> set path. \<not> (f64_gt (weight e) (Fin 1) \<and> f64_lt (weight e) (Fin MaxFloat64)))
     \<and> minI_of path = 0
   \<or> (\<exists>w. minI_of path < length path \<and> weight (path ! minI_of path) = Fin w
        \<and> 1 < w \<and> w < MaxFloat64
        \<and> (\<forall>j<length path. f64_gt (weight (path ! j)) (Fin 1) \<longrightarrow> f64_le (Fin w) (weight (path ! j)))
        \<and> (\<forall>j<minI_of path. f64_gt (weight (path ! j)) (Fin 1) \<longrightarrow> f64_lt (Fin w) (weight (path ! j))))"
proof (cases "\<exists>e \<in> set path. f64_gt (weight e) (Fin 1) \<and> f64_lt (weight e) (Fin MaxFloat64)")
  case True
  from weakest_some[OF True, of 0 0] show ?thesis
    by (auto simp: minI_of_def)
next
  case False
  then show ?thesis
    by (simp add: minI_of_def weakest_none)
qed

lemma minI_of_less: "path \<noteq> [] \<Longrightarrow> minI_of path < length path"
  using minI_of_cases[of path] by auto

lemma breakCycle_empty: "breakCycle [] = Inl SliceBoundsOutOfRange"
  by (simp add: breakCycle_def minI_of_def)




text \<open>
  C10. On a non-empty sequence breakCycle does not panic and returns the sequence
  without the edge at \<open>minI\<close>, so one edge shorter; when no edge is heavier than 1,
  \<open>minI\<close> is 0 and the result is the input without its first edge, whatever that edge
  weighs.
\<close>

theorem breakCycle_removes_one_edge:
  assumes "path \<noteq> []"
  shows "breakCycle path = Inr (drop (Suc (minI_of path)) path @ take (minI_of path) path)
    \<and> minI_of path < length path
    \<and> length (drop (Suc (minI_of path)) path @ take (minI_of path) path) = length path - 1
    \<and> ((\<forall>e \<in> set path. \<not> f64_gt (weight e) (Fin 1))
          \<longrightarrow> minI_of path = 0 \<and> breakCycle path = Inr (tl path))"
proof -
  have less: "minI_of path < length path"
    using assms by (rule minI_of_less)
  then have run: "breakCycle path = Inr (drop (Suc (minI_of path)) path @ take (minI_of path) path)"
    by (simp add: breakCycle_def Let_def)
  have len: "length (drop (Suc (minI_of path)) path @ take (minI_of path) path) = length path - 1"
    using less by simp
  have "minI_of path = 0 \<and> breakCycle path = Inr (tl path)"
    if "\<forall>e \<in> set path. \<not> f64_gt (weight e) (Fin 1)"
  proof -
    have "minI_of path = 0"
      using that by (simp add: minI_of_def weakest_none)
    then show ?thesis using run by (simp add: drop_Suc)
  qed
  then show ?thesis using less run len by blast
qed

text \<open>The theorem at a sequence of two edges, none heavier than 1: the first one goes.\<close>

theorem breakCycle_removes_one_edge_witness:
  "[mk_edge 0 1 (Fin (4 / 5)), mk_edge 1 2 (Fin (1 / 2))] \<noteq> []
   \<and> minI_of [mk_edge 0 1 (Fin (4 / 5)), mk_edge 1 2 (Fin (1 / 2))] = 0
   \<and> breakCycle [mk_edge 0 1 (Fin (4 / 5)), mk_edge 1 2 (Fin (1 / 2))]
       = Inr [mk_edge 1 2 (Fin (1 / 2))]
   \<and> length [mk_edge 1 2 (Fin (1 / 2))]
       = length [mk_edge 0 1 (Fin (4 / 5)), mk_edge 1 2 (Fin (1 / 2))] - 1"
  using breakCycle_removes_one_edge
    [of "[mk_edge 0 1 (Fin (4 / 5)), mk_edge 1 2 (Fin (1 / 2))]"]
  by (simp add: f64_gt_def)

section \<open>Properties of dfs\<close>

text \<open>dfs only appends to the path it is given.\<close>

lemma dfs_extends:
  "dfs sister G x path visited vs = Inr (p, c, v) \<Longrightarrow> \<exists>ext. p = path @ ext"
proof (induction sister G x path visited vs arbitrary: p c v rule: dfs.induct)
  case (1 sister G x path visited visitSister)
  show ?case
  proof (cases "x \<in> visited")
    case True
    then show ?thesis using "1.prems" by (simp add: dfs.simps)
  next
    case unvisited: False
    show ?thesis
    proof (cases visitSister)
      case True
      with unvisited "1.prems" have
        "dfs sister G (sister x) (path @ [mk_edge x (sister x) (Fin 0)]) (insert x visited) False
           = Inr (p, c, v)"
        by (simp add: dfs.simps)
      from "1.IH"(1)[OF unvisited True this] show ?thesis by auto
    next
      case False
      show ?thesis
      proof (cases "map_of G x")
        case None
        then show ?thesis using unvisited False "1.prems" by (simp add: dfs.simps)
      next
        case (Some nb)
        show ?thesis
        proof (cases nb)
          case Nil
          then show ?thesis using unvisited False Some "1.prems" by (simp add: dfs.simps)
        next
          case (Cons yw rest)
          obtain y w where yw: "yw = (y, w)" by (cases yw)
          with unvisited False Some Cons "1.prems" have
            "dfs sister G y (path @ [mk_edge x y w]) (insert x visited) True = Inr (p, c, v)"
            by (simp add: dfs.simps)
          from "1.IH"(2)[OF unvisited False Some Cons yw[symmetric] this] show ?thesis by auto
        qed
      qed
    qed
  qed
qed

text \<open>dfs returns unless it meets an End whose neighbour map is empty.\<close>

lemma dfs_returns:
  "\<forall>(z, nb) \<in> set G. nb \<noteq> [] \<Longrightarrow> \<exists>p c v. dfs sister G x path visited vs = Inr (p, c, v)"
proof (induction sister G x path visited vs rule: dfs.induct)
  case (1 sister G x path visited visitSister)
  show ?case
  proof (cases "x \<in> visited")
    case True
    then have "dfs sister G x path visited visitSister = Inr (path, True, visited)"
      by (simp add: dfs.simps)
    then show ?thesis by blast
  next
    case unvisited: False
    show ?thesis
    proof (cases visitSister)
      case True
      from "1.IH"(1)[OF unvisited True "1.prems"] show ?thesis
        using unvisited True by (subst dfs.simps) simp
    next
      case False
      show ?thesis
      proof (cases "map_of G x")
        case None
        then have "dfs sister G x path visited visitSister = Inr (path, False, insert x visited)"
          using unvisited False by (simp add: dfs.simps)
        then show ?thesis by blast
      next
        case (Some nb)
        then have "(x, nb) \<in> set G" by (rule map_of_SomeD)
        with "1.prems" have "nb \<noteq> []" by auto
        then obtain y w rest where nb: "nb = (y, w) # rest"
          by (cases nb) auto
        from "1.IH"(2)[OF unvisited False Some nb refl "1.prems"] show ?thesis
          using unvisited False Some nb by (subst dfs.simps) simp
      qed
    qed
  qed
qed

text \<open>
  C3, as amended. At a non-sister step from an End \<open>x\<close> that is not yet visited and has
  neighbours, dfs follows the edge to the neighbour that the enumeration of \<open>G[x]\<close>
  yields first, with the weight stored for it: the walk goes on from that neighbour, and
  the edge is the next one of the returned path. No weight is compared and the visited
  set is not consulted for the choice. When the End has one neighbour only, the edge
  followed is trivially of maximal weight; by \<open>confidence_single_neighbor\<close> that is so at
  every End of the confidence graph of a symmetric graph with positive weights.
\<close>

theorem dfs_follows_first_neighbor:
  assumes "x \<notin> visited" and "map_of G x = Some ((y, w) # rest)"
  shows "dfs sister G x path visited False
           = dfs sister G y (path @ [mk_edge x y w]) (insert x visited) True
    \<and> (\<forall>p c v. dfs sister G x path visited False = Inr (p, c, v)
          \<longrightarrow> take (Suc (length path)) p = path @ [mk_edge x y w])
    \<and> (rest = [] \<longrightarrow> (\<forall>(y', w') \<in> set ((y, w) # rest). \<not> f64_lt w w'))"
proof -
  have only: "\<not> f64_lt w w"
    by (cases w) auto
  have step: "dfs sister G x path visited False
      = dfs sister G y (path @ [mk_edge x y w]) (insert x visited) True"
    using assms by (simp add: dfs.simps)
  have "take (Suc (length path)) p = path @ [mk_edge x y w]"
    if "dfs sister G x path visited False = Inr (p, c, v)" for p c v
  proof -
    from that step dfs_extends obtain ext where "p = (path @ [mk_edge x y w]) @ ext"
      by metis
    then show ?thesis by simp
  qed
  then show ?thesis using step only by auto
qed

theorem dfs_follows_first_neighbor_witness:
  "0 \<notin> ({} :: node set)
   \<and> map_of [(0 :: node, [(4 :: node, Fin 2), (2, Fin 4)])] 0 = Some ((4, Fin 2) # [(2, Fin 4)])
   \<and> dfs sister_end [(0, [(4, Fin 2), (2, Fin 4)])] 0 [] {} False
       = dfs sister_end [(0, [(4, Fin 2), (2, Fin 4)])] 4 ([] @ [mk_edge 0 4 (Fin 2)]) (insert 0 {}) True
   \<and> dfs sister_end [(0, [(4, Fin 2), (2, Fin 4)])] 0 [] {} False
       = Inr ([mk_edge 0 4 (Fin 2), mk_edge 4 5 (Fin 0)], False, {0, 4, 5})
   \<and> take (Suc (length ([] :: Edge list))) [mk_edge 0 4 (Fin 2), mk_edge 4 5 (Fin 0)]
       = [] @ [mk_edge 0 4 (Fin 2)]"
  using dfs_follows_first_neighbor
    [of 0 "{}" "[(0, [(4, Fin 2), (2, Fin 4)])]" 4 "Fin 2" "[(2, Fin 4)]" sister_end "[]"]
  by (simp add: dfs.simps sister_end_def insert_commute)

text \<open>
  C3 as the spec states it fails. In the graph below end 0 has two neighbours of weight
  4; after makeConfidenceGraph its edge to end 4 has confidence 2 and its edge to end 2
  has confidence 4. The walk from end 0 takes the edge to end 4, the first one of the
  enumeration, and never follows the heavier edge to end 2.
\<close>

theorem dfs_follows_lighter_edge:
  "makeConfidenceGraph [(0, [(4, Fin 4), (2, Fin 4)]), (2, [(0, Fin 1)]), (4, [(0, Fin 2)])]
     = Inr ([(0, [(4, Fin 2), (2, Fin 4)]), (2, [(0, Fin 1)]), (4, [(0, Fin 1)])],
            [(0, [(4, Fin 2), (2, Fin 4)])])
   \<and> dfs sister_end [(0, [(4, Fin 2), (2, Fin 4)])] 0 [] {} False
       = Inr ([mk_edge 0 4 (Fin 2), mk_edge 4 5 (Fin 0)], False, {0, 4, 5})
   \<and> edge_of [(0, [(4, Fin 2), (2, Fin 4)])] 0 2 = Some (Fin 4)
   \<and> f64_lt (Fin 2) (Fin 4)"
  by (simp add: makeConfidenceGraph_def twoLargest_def twoLargestOf_def slice_at_def
      getSecondLargest_def graph_set_def f64_gt_def f64_le_def f64_eq_def float64_less_def
      Let_def dfs.simps sister_end_def insert_commute edge_of_def)

section \<open>Properties of ParseClm\<close>

lemma tigToIdx_ParseClm_row [simp]:
  "tigToIdx (ParseClm_row GA HM r row) = tigToIdx r"
  by (simp add: ParseClm_row_def Let_def split: option.split)

lemma tigToIdx_ParseClm [simp]: "tigToIdx (ParseClm GA HM r rows) = tigToIdx r"
  by (induction rows arbitrary: r) (simp_all add: ParseClm_def)

lemma hits_ParseClm_row [simp]: "hits (ParseClm_row GA HM r row) = hits r"
  by (simp add: hits_def fun_eq_iff)

lemma ParseClm_snoc:
  "ParseClm GA HM r (rows @ [row]) = ParseClm_row GA HM (ParseClm GA HM r rows) row"
  by (simp add: ParseClm_def)

text \<open>A row changes the contact of its own pair only, and by \<open>slot_step\<close>.\<close>

lemma contacts_ParseClm_row:
  "map_of (contacts (ParseClm_row GA HM r row)) pair
     = (if hits r pair row then slot_step (map_of (contacts r) pair) (contact_of HM row)
        else map_of (contacts r) pair)"
  by (cases pair)
    (auto simp: ParseClm_row_def Let_def hits_def slot_step_def contact_of_def update_conv'
      split: option.split)

lemma contacts_ParseClm:
  "map_of (contacts (ParseClm GA HM r rows)) pair
     = foldl slot_step (map_of (contacts r) pair) (map (contact_of HM) (filter (hits r pair) rows))"
proof (induction rows arbitrary: r)
  case Nil
  show ?case by (simp add: ParseClm_def)
next
  case (Cons row rows)
  have "ParseClm GA HM r (row # rows) = ParseClm GA HM (ParseClm_row GA HM r row) rows"
    by (simp add: ParseClm_def)
  then show ?case
    using Cons.IH[of "ParseClm_row GA HM r row"] by (simp add: contacts_ParseClm_row)
qed

text \<open>
  Folding \<open>slot_step\<close> from a contact \<open>p\<close>: either \<open>p\<close> stays, and no later contact has
  a smaller meanDist, or the first of the contacts with the least meanDist wins, and its
  meanDist is smaller than that of \<open>p\<close>.
\<close>

lemma slot_fold_Some:
  "(foldl slot_step (Some p) cs = Some p \<and> (\<forall>j<length cs. meanDist p \<le> meanDist (cs ! j)))
   \<or> (\<exists>k<length cs. foldl slot_step (Some p) cs = Some (cs ! k)
         \<and> meanDist (cs ! k) < meanDist p
         \<and> (\<forall>j<length cs. meanDist (cs ! k) \<le> meanDist (cs ! j))
         \<and> (\<forall>j<k. meanDist (cs ! k) < meanDist (cs ! j)))"
proof (induction cs arbitrary: p)
  case Nil
  show ?case by simp
next
  case (Cons c cs)
  show ?case
  proof (cases "meanDist p > meanDist c")
    case True
    then have step: "foldl slot_step (Some p) (c # cs) = foldl slot_step (Some c) cs"
      by (simp add: slot_step_def)
    from Cons.IH[of c] show ?thesis
    proof
      assume "foldl slot_step (Some c) cs = Some c \<and> (\<forall>j<length cs. meanDist c \<le> meanDist (cs ! j))"
      then have "0 < length (c # cs) \<and> foldl slot_step (Some p) (c # cs) = Some ((c # cs) ! 0)
         \<and> meanDist ((c # cs) ! 0) < meanDist p
         \<and> (\<forall>j<length (c # cs). meanDist ((c # cs) ! 0) \<le> meanDist ((c # cs) ! j))
         \<and> (\<forall>j<0. meanDist ((c # cs) ! 0) < meanDist ((c # cs) ! j))"
        using True step by (auto simp: nth_Cons')
      then show ?thesis by blast
    next
      assume "\<exists>k<length cs. foldl slot_step (Some c) cs = Some (cs ! k)
         \<and> meanDist (cs ! k) < meanDist c
         \<and> (\<forall>j<length cs. meanDist (cs ! k) \<le> meanDist (cs ! j))
         \<and> (\<forall>j<k. meanDist (cs ! k) < meanDist (cs ! j))"
      then obtain k where k: "k < length cs" "foldl slot_step (Some c) cs = Some (cs ! k)"
        "meanDist (cs ! k) < meanDist c"
        "\<forall>j<length cs. meanDist (cs ! k) \<le> meanDist (cs ! j)"
        "\<forall>j<k. meanDist (cs ! k) < meanDist (cs ! j)"
        by blast
      have "Suc k < length (c # cs) \<and> foldl slot_step (Some p) (c # cs) = Some ((c # cs) ! Suc k)
         \<and> meanDist ((c # cs) ! Suc k) < meanDist p
         \<and> (\<forall>j<length (c # cs). meanDist ((c # cs) ! Suc k) \<le> meanDist ((c # cs) ! j))
         \<and> (\<forall>j<Suc k. meanDist ((c # cs) ! Suc k) < meanDist ((c # cs) ! j))"
        using True step k by (auto simp: nth_Cons' less_Suc_eq_0_disj)
      then show ?thesis by blast
    qed
  next
    case False
    then have step: "foldl slot_step (Some p) (c # cs) = foldl slot_step (Some p) cs"
      by (simp add: slot_step_def)
    from Cons.IH[of p] show ?thesis
    proof
      assume "foldl slot_step (Some p) cs = Some p \<and> (\<forall>j<length cs. meanDist p \<le> meanDist (cs ! j))"
      then have "foldl slot_step (Some p) (c # cs) = Some p
          \<and> (\<forall>j<length (c # cs). meanDist p \<le> meanDist ((c # cs) ! j))"
        using False step by (auto simp: nth_Cons' less_Suc_eq_0_disj)
      then show ?thesis by blast
    next
      assume "\<exists>k<length cs. foldl slot_step (Some p) cs = Some (cs ! k)
         \<and> meanDist (cs ! k) < meanDist p
         \<and> (\<forall>j<length cs. meanDist (cs ! k) \<le> meanDist (cs ! j))
         \<and> (\<forall>j<k. meanDist (cs ! k) < meanDist (cs ! j))"
      then obtain k where k: "k < length cs" "foldl slot_step (Some p) cs = Some (cs ! k)"
        "meanDist (cs ! k) < meanDist p"
        "\<forall>j<length cs. meanDist (cs ! k) \<le> meanDist (cs ! j)"
        "\<forall>j<k. meanDist (cs ! k) < meanDist (cs ! j)"
        by blast
      have "Suc k < length (c # cs) \<and> foldl slot_step (Some p) (c # cs) = Some ((c # cs) ! Suc k)
         \<and> meanDist ((c # cs) ! Suc k) < meanDist p
         \<and> (\<forall>j<length (c # cs). meanDist ((c # cs) ! Suc k) \<le> meanDist ((c # cs) ! j))
         \<and> (\<forall>j<Suc k. meanDist ((c # cs) ! Suc k) < meanDist ((c # cs) ! j))"
        using False step k by (auto simp: nth_Cons' less_Suc_eq_0_disj)
      then show ?thesis by blast
    qed
  qed
qed

lemma slot_fold_None:
  "cs \<noteq> [] \<Longrightarrow> \<exists>k<length cs. foldl slot_step None cs = Some (cs ! k)
         \<and> (\<forall>j<length cs. meanDist (cs ! k) \<le> meanDist (cs ! j))
         \<and> (\<forall>j<k. meanDist (cs ! k) < meanDist (cs ! j))"
proof (cases cs)
  case Nil
  then show "cs \<noteq> [] \<Longrightarrow> ?thesis" by simp
next
  case (Cons c cs')
  have step: "foldl slot_step None (c # cs') = foldl slot_step (Some c) cs'"
    by (simp add: slot_step_def)
  from slot_fold_Some[of c cs'] show ?thesis
  proof
    assume "foldl slot_step (Some c) cs' = Some c \<and> (\<forall>j<length cs'. meanDist c \<le> meanDist (cs' ! j))"
    then have "0 < length cs \<and> foldl slot_step None cs = Some (cs ! 0)
         \<and> (\<forall>j<length cs. meanDist (cs ! 0) \<le> meanDist (cs ! j))
         \<and> (\<forall>j<0. meanDist (cs ! 0) < meanDist (cs ! j))"
      using step Cons by (auto simp: nth_Cons')
    then show ?thesis by blast
  next
    assume "\<exists>k<length cs'. foldl slot_step (Some c) cs' = Some (cs' ! k)
         \<and> meanDist (cs' ! k) < meanDist c
         \<and> (\<forall>j<length cs'. meanDist (cs' ! k) \<le> meanDist (cs' ! j))
         \<and> (\<forall>j<k. meanDist (cs' ! k) < meanDist (cs' ! j))"
    then obtain k where k: "k < length cs'" "foldl slot_step (Some c) cs' = Some (cs' ! k)"
        "meanDist (cs' ! k) < meanDist c"
        "\<forall>j<length cs'. meanDist (cs' ! k) \<le> meanDist (cs' ! j)"
        "\<forall>j<k. meanDist (cs' ! k) < meanDist (cs' ! j)"
      by blast
    have "Suc k < length cs \<and> foldl slot_step None cs = Some (cs ! Suc k)
         \<and> (\<forall>j<length cs. meanDist (cs ! Suc k) \<le> meanDist (cs ! j))
         \<and> (\<forall>j<Suc k. meanDist (cs ! Suc k) < meanDist (cs ! j))"
      using step Cons k by (auto simp: nth_Cons' less_Suc_eq_0_disj)
    then show ?thesis by blast
  qed
qed

text \<open>
  C4, as amended. The key of \<open>contacts\<close> is the ordered pair \<open>(ai, bi)\<close>. Let \<open>rs\<close> be
  the rows of the file that are ingested for that ordered pair, in file order. When the
  pair has no contact before the run and \<open>rs\<close> is not empty, the contact stored after
  the run is that of the first row of \<open>rs\<close> with the least meanDist. When the pair has a
  contact \<open>p\<close> before the run, \<open>p\<close> is kept unless some row of \<open>rs\<close> has a strictly
  smaller meanDist, and then the first row with the least meanDist is stored: a row
  replaces the existing contact only when strictly smaller, and a tie keeps what is
  there.
\<close>

theorem ParseClm_keeps_smallest_meanDist:
  assumes "rs = filter (hits r (ai, bi)) rows"
  shows "(map_of (contacts r) (ai, bi) = None \<and> rs \<noteq> [] \<longrightarrow>
           (\<exists>k<length rs.
              map_of (contacts (ParseClm GA HM r rows)) (ai, bi) = Some (contact_of HM (rs ! k))
            \<and> (\<forall>j<length rs. HM (r_dists (rs ! k)) \<le> HM (r_dists (rs ! j)))
            \<and> (\<forall>j<k. HM (r_dists (rs ! k)) < HM (r_dists (rs ! j)))))
    \<and> (\<forall>p. map_of (contacts r) (ai, bi) = Some p \<longrightarrow>
           (map_of (contacts (ParseClm GA HM r rows)) (ai, bi) = Some p
            \<and> (\<forall>j<length rs. meanDist p \<le> HM (r_dists (rs ! j))))
         \<or> (\<exists>k<length rs.
              map_of (contacts (ParseClm GA HM r rows)) (ai, bi) = Some (contact_of HM (rs ! k))
            \<and> HM (r_dists (rs ! k)) < meanDist p
            \<and> (\<forall>j<length rs. HM (r_dists (rs ! k)) \<le> HM (r_dists (rs ! j)))
            \<and> (\<forall>j<k. HM (r_dists (rs ! k)) < HM (r_dists (rs ! j)))))"
proof -
  have md: "meanDist (map (contact_of HM) rs ! j) = HM (r_dists (rs ! j))" if "j < length rs" for j
    using that by (simp add: contact_of_def)
  have final: "map_of (contacts (ParseClm GA HM r rows)) (ai, bi)
      = foldl slot_step (map_of (contacts r) (ai, bi)) (map (contact_of HM) rs)"
    by (simp add: contacts_ParseClm assms)
  have none: "\<exists>k<length rs.
              map_of (contacts (ParseClm GA HM r rows)) (ai, bi) = Some (contact_of HM (rs ! k))
            \<and> (\<forall>j<length rs. HM (r_dists (rs ! k)) \<le> HM (r_dists (rs ! j)))
            \<and> (\<forall>j<k. HM (r_dists (rs ! k)) < HM (r_dists (rs ! j)))"
    if "map_of (contacts r) (ai, bi) = None" "rs \<noteq> []"
  proof -
    from that(2) have "map (contact_of HM) rs \<noteq> []" by simp
    from slot_fold_None[OF this] obtain k where k: "k < length rs"
      "foldl slot_step None (map (contact_of HM) rs) = Some (map (contact_of HM) rs ! k)"
      "\<forall>j<length rs. meanDist (map (contact_of HM) rs ! k) \<le> meanDist (map (contact_of HM) rs ! j)"
      "\<forall>j<k. meanDist (map (contact_of HM) rs ! k) < meanDist (map (contact_of HM) rs ! j)"
      by auto
    show ?thesis
      using k that(1) final by (intro exI[of _ k]) (simp add: contact_of_def)
  qed
  have some: "(map_of (contacts (ParseClm GA HM r rows)) (ai, bi) = Some p
            \<and> (\<forall>j<length rs. meanDist p \<le> HM (r_dists (rs ! j))))
         \<or> (\<exists>k<length rs.
              map_of (contacts (ParseClm GA HM r rows)) (ai, bi) = Some (contact_of HM (rs ! k))
            \<and> HM (r_dists (rs ! k)) < meanDist p
            \<and> (\<forall>j<length rs. HM (r_dists (rs ! k)) \<le> HM (r_dists (rs ! j)))
            \<and> (\<forall>j<k. HM (r_dists (rs ! k)) < HM (r_dists (rs ! j))))"
    if p: "map_of (contacts r) (ai, bi) = Some p" for p
    using slot_fold_Some[of p "map (contact_of HM) rs"]
  proof
    assume "foldl slot_step (Some p) (map (contact_of HM) rs) = Some p
      \<and> (\<forall>j<length (map (contact_of HM) rs). meanDist p \<le> meanDist (map (contact_of HM) rs ! j))"
    then show ?thesis using p final by (simp add: contact_of_def)
  next
    assume "\<exists>k<length (map (contact_of HM) rs).
       foldl slot_step (Some p) (map (contact_of HM) rs) = Some (map (contact_of HM) rs ! k)
       \<and> meanDist (map (contact_of HM) rs ! k) < meanDist p
       \<and> (\<forall>j<length (map (contact_of HM) rs).
             meanDist (map (contact_of HM) rs ! k) \<le> meanDist (map (contact_of HM) rs ! j))
       \<and> (\<forall>j<k. meanDist (map (contact_of HM) rs ! k) < meanDist (map (contact_of HM) rs ! j))"
    then obtain k where k: "k < length rs"
      "foldl slot_step (Some p) (map (contact_of HM) rs) = Some (map (contact_of HM) rs ! k)"
      "meanDist (map (contact_of HM) rs ! k) < meanDist p"
      "\<forall>j<length rs. meanDist (map (contact_of HM) rs ! k) \<le> meanDist (map (contact_of HM) rs ! j)"
      "\<forall>j<k. meanDist (map (contact_of HM) rs ! k) < meanDist (map (contact_of HM) rs ! j)"
      by auto
    have "\<exists>k<length rs.
              map_of (contacts (ParseClm GA HM r rows)) (ai, bi) = Some (contact_of HM (rs ! k))
            \<and> HM (r_dists (rs ! k)) < meanDist p
            \<and> (\<forall>j<length rs. HM (r_dists (rs ! k)) \<le> HM (r_dists (rs ! j)))
            \<and> (\<forall>j<k. HM (r_dists (rs ! k)) < HM (r_dists (rs ! j)))"
      using k p final by (intro exI[of _ k]) (simp add: contact_of_def)
    then show ?thesis by blast
  qed
  from none some show ?thesis by blast
qed

text \<open>
  The theorem at four rows, three of them for the pair (A, B): the second and the last
  tie at meanDist 10, and the second is the one stored.
\<close>

theorem ParseClm_keeps_smallest_meanDist_witness:
  "[mk_row ''A'' CHR ''+'' ''B'' CHR ''+'' 1 [30], mk_row ''A'' CHR ''+'' ''B'' CHR ''-'' 2 [10],
    mk_row ''A'' CHR ''-'' ''B'' CHR ''+'' 3 [10]]
     = filter (hits clm0 (0, 1))
        [mk_row ''A'' CHR ''+'' ''B'' CHR ''+'' 1 [30], mk_row ''A'' CHR ''+'' ''B'' CHR ''-'' 2 [10],
         mk_row ''B'' CHR ''+'' ''A'' CHR ''+'' 5 [7], mk_row ''A'' CHR ''-'' ''B'' CHR ''+'' 3 [10]]
   \<and> map_of (contacts clm0) (0, 1) = None
   \<and> map_of (contacts (ParseClm id hd clm0
        [mk_row ''A'' CHR ''+'' ''B'' CHR ''+'' 1 [30], mk_row ''A'' CHR ''+'' ''B'' CHR ''-'' 2 [10],
         mk_row ''B'' CHR ''+'' ''A'' CHR ''+'' 5 [7], mk_row ''A'' CHR ''-'' ''B'' CHR ''+'' 3 [10]])) (0, 1)
       = Some (contact_of hd (mk_row ''A'' CHR ''+'' ''B'' CHR ''-'' 2 [10]))"
  using ParseClm_keeps_smallest_meanDist
    [of "[mk_row ''A'' CHR ''+'' ''B'' CHR ''+'' 1 [30], mk_row ''A'' CHR ''+'' ''B'' CHR ''-'' 2 [10],
          mk_row ''A'' CHR ''-'' ''B'' CHR ''+'' 3 [10]]"
        clm0 0 1
        "[mk_row ''A'' CHR ''+'' ''B'' CHR ''+'' 1 [30], mk_row ''A'' CHR ''+'' ''B'' CHR ''-'' 2 [10],
          mk_row ''B'' CHR ''+'' ''A'' CHR ''+'' 5 [7], mk_row ''A'' CHR ''-'' ''B'' CHR ''+'' 3 [10]]"
        id hd]
  by (simp add: contacts_ParseClm hits_def clm0_def mk_row_def contact_of_def slot_step_def)

text \<open>
  C4 as the spec states it, for the unordered pair, fails: a row for (A, B) and a row
  for (B, A) are stored under two keys, and the contact under (A, B) keeps meanDist 30
  although the other row of the same unordered pair has meanDist 10.
\<close>

theorem ParseClm_keys_ordered_pairs:
  "map_of (contacts (ParseClm id hd clm0
      [mk_row ''A'' CHR ''+'' ''B'' CHR ''+'' 1 [30], mk_row ''B'' CHR ''+'' ''A'' CHR ''+'' 1 [10]])) (0, 1)
     = Some \<lparr>strandedness = 1, nlinks = 1, meanDist = 30\<rparr>
   \<and> map_of (contacts (ParseClm id hd clm0
      [mk_row ''A'' CHR ''+'' ''B'' CHR ''+'' 1 [30], mk_row ''B'' CHR ''+'' ''A'' CHR ''+'' 1 [10]])) (1, 0)
     = Some \<lparr>strandedness = 1, nlinks = 1, meanDist = 10\<rparr>"
  by (simp add: contacts_ParseClm hits_def clm0_def mk_row_def contact_of_def slot_step_def)

subsection \<open>The oriented contacts at the end of a run\<close>

lemma rr_rr: "strand c \<Longrightarrow> rr (rr c) = c"
  by (auto simp: strand_def rr_def)

lemma strand_rr [simp]: "strand (rr c)"
  by (simp add: strand_def rr_def)

lemma flipped_flipped: "strand oi \<Longrightarrow> strand oj \<Longrightarrow> flipped (flipped (i, j, oi, oj)) = (i, j, oi, oj)"
  by (simp add: flipped_def rr_rr)

lemma orientedContacts_ParseClm_row:
  "orientedContacts (ParseClm_row GA HM r row) =
     (case tigToIdx r (r_at row) of
        None \<Rightarrow> orientedContacts r
      | Some ai \<Rightarrow>
          (case tigToIdx r (r_bt row) of
             None \<Rightarrow> orientedContacts r
           | Some bi \<Rightarrow>
               AList.update (flipped (ai, bi, r_ao row, r_bo row)) (GA (r_dists row))
                 (AList.update (ai, bi, r_ao row, r_bo row) (GA (r_dists row))
                    (orientedContacts r))))"
  by (simp add: ParseClm_row_def Let_def flipped_def split: option.split)

lemma mirrored_update:
  assumes "mirrored oc" and "strand ao" and "strand bo"
  shows "mirrored (AList.update (flipped (ai, bi, ao, bo)) g (AList.update (ai, bi, ao, bo) g oc))"
  unfolding mirrored_def
proof (intro allI impI)
  fix i j :: int and oi oj :: char
  assume v: "strand oi \<and> strand oj"
  let ?k = "(i, j, oi, oj)"
  let ?f = "(ai, bi, ao, bo)"
  have to_f: "flipped ?k = ?f \<longleftrightarrow> ?k = flipped ?f"
    using v assms(2,3) by (metis flipped_flipped)
  have to_ff: "flipped ?k = flipped ?f \<longleftrightarrow> ?k = ?f"
    using v assms(2,3) by (metis flipped_flipped)
  have old: "map_of oc (flipped ?k) = map_of oc ?k"
    using assms(1) v by (simp add: mirrored_def)
  show "map_of (AList.update (flipped ?f) g (AList.update ?f g oc)) (flipped ?k)
      = map_of (AList.update (flipped ?f) g (AList.update ?f g oc)) ?k"
    using to_f to_ff old by (auto simp: update_conv')
qed

lemma mirrored_ParseClm_row:
  "mirrored (orientedContacts r) \<Longrightarrow> strand (r_ao row) \<Longrightarrow> strand (r_bo row)
   \<Longrightarrow> mirrored (orientedContacts (ParseClm_row GA HM r row))"
  by (simp add: orientedContacts_ParseClm_row mirrored_update split: option.split)

lemma mirrored_ParseClm:
  "mirrored (orientedContacts r) \<Longrightarrow> \<forall>row \<in> set rows. strand (r_ao row) \<and> strand (r_bo row)
   \<Longrightarrow> mirrored (orientedContacts (ParseClm GA HM r rows))"
proof (induction rows arbitrary: r)
  case Nil
  then show ?case by (simp add: ParseClm_def)
next
  case (Cons row rows)
  have "ParseClm GA HM r (row # rows) = ParseClm GA HM (ParseClm_row GA HM r row) rows"
    by (simp add: ParseClm_def)
  moreover have "mirrored (orientedContacts (ParseClm_row GA HM r row))"
    using Cons.prems by (simp add: mirrored_ParseClm_row)
  ultimately show ?case using Cons.IH Cons.prems(2) by simp
qed

lemma keys_ParseClm_row:
  "k \<in> fst ` set (orientedContacts r) \<Longrightarrow> k \<in> fst ` set (orientedContacts (ParseClm_row GA HM r row))"
  by (simp add: orientedContacts_ParseClm_row dom_update split: option.split)

lemma keys_ParseClm:
  "k \<in> fst ` set (orientedContacts r) \<Longrightarrow> k \<in> fst ` set (orientedContacts (ParseClm GA HM r rows))"
proof (induction rows arbitrary: r)
  case Nil
  then show ?case by (simp add: ParseClm_def)
next
  case (Cons row rows)
  have "ParseClm GA HM r (row # rows) = ParseClm GA HM (ParseClm_row GA HM r row) rows"
    by (simp add: ParseClm_def)
  then show ?case using Cons.IH[OF keys_ParseClm_row[OF Cons.prems]] by simp
qed

text \<open>
  At the end of a run that starts without oriented contacts, over rows whose
  orientation bytes are \<open>+\<close> or \<open>-\<close>: for every row that was ingested, both its key
  and its flipped key are present and carry one histogram (that of the last row that
  wrote either). The bytes matter: \<open>rr\<close> sends every byte other than \<open>-\<close> to \<open>-\<close>,
  so flipping twice does not give back a byte such as \<open>?\<close>.
\<close>

lemma ParseClm_mirrored_at_end:
  assumes "orientedContacts r = []"
    and "\<forall>row \<in> set rows. strand (r_ao row) \<and> strand (r_bo row)"
    and "row \<in> set rows"
    and "tigToIdx r (r_at row) = Some ai" and "tigToIdx r (r_bt row) = Some bi"
  shows "\<exists>g. map_of (orientedContacts (ParseClm GA HM r rows)) (ai, bi, r_ao row, r_bo row) = Some g
    \<and> map_of (orientedContacts (ParseClm GA HM r rows)) (bi, ai, rr (r_bo row), rr (r_ao row)) = Some g"
proof -
  from assms(3) obtain pre post where rows: "rows = pre @ row # post"
    by (auto dest: split_list)
  have run: "ParseClm GA HM r rows = ParseClm GA HM (ParseClm GA HM r (pre @ [row])) post"
    by (simp add: rows ParseClm_def)
  have "(ai, bi, r_ao row, r_bo row)
      \<in> fst ` set (orientedContacts (ParseClm_row GA HM (ParseClm GA HM r pre) row))"
    using assms(4,5) by (simp add: orientedContacts_ParseClm_row dom_update)
  then have "(ai, bi, r_ao row, r_bo row)
      \<in> fst ` set (orientedContacts (ParseClm GA HM r (pre @ [row])))"
    by (simp add: ParseClm_snoc)
  then have "(ai, bi, r_ao row, r_bo row) \<in> fst ` set (orientedContacts (ParseClm GA HM r rows))"
    unfolding run by (rule keys_ParseClm)
  then obtain g where
    g: "map_of (orientedContacts (ParseClm GA HM r rows)) (ai, bi, r_ao row, r_bo row) = Some g"
    by (metis domD dom_map_of_conv_image_fst)
  have "mirrored (orientedContacts r)" by (simp add: assms(1) mirrored_def)
  from mirrored_ParseClm[OF this assms(2), of GA HM] assms(2,3)
  have "map_of (orientedContacts (ParseClm GA HM r rows)) (flipped (ai, bi, r_ao row, r_bo row))
      = map_of (orientedContacts (ParseClm GA HM r rows)) (ai, bi, r_ao row, r_bo row)"
    by (simp add: mirrored_def)
  then show ?thesis using g by (simp add: flipped_def)
qed

text \<open>
  C6. Right after a row for \<open>(ai, bi, ao, bo)\<close> is ingested, whatever came before it,
  \<open>orientedContacts\<close> holds the key \<open>(ai, bi, ao, bo)\<close> and the flipped key
  \<open>(bi, ai, rr bo, rr ao)\<close>, both with the histogram of the row. And when the run
  starts without oriented contacts and the orientation bytes of all rows are \<open>+\<close> or
  \<open>-\<close>, both keys are still present after the rows that follow, with one histogram.
\<close>

theorem ParseClm_stores_both_orientations:
  assumes "tigToIdx r (r_at row) = Some ai" and "tigToIdx r (r_bt row) = Some bi"
  shows "map_of (orientedContacts (ParseClm GA HM r (rows @ [row]))) (ai, bi, r_ao row, r_bo row)
           = Some (GA (r_dists row))
    \<and> map_of (orientedContacts (ParseClm GA HM r (rows @ [row])))
           (bi, ai, rr (r_bo row), rr (r_ao row))
           = Some (GA (r_dists row))
    \<and> (orientedContacts r = []
         \<and> (\<forall>row' \<in> set (rows @ row # later). strand (r_ao row') \<and> strand (r_bo row'))
        \<longrightarrow> (\<exists>g. map_of (orientedContacts (ParseClm GA HM r (rows @ row # later)))
                     (ai, bi, r_ao row, r_bo row) = Some g
                 \<and> map_of (orientedContacts (ParseClm GA HM r (rows @ row # later)))
                     (bi, ai, rr (r_bo row), rr (r_ao row)) = Some g))"
proof -
  have now: "map_of (orientedContacts (ParseClm GA HM r (rows @ [row]))) (ai, bi, r_ao row, r_bo row)
           = Some (GA (r_dists row))
    \<and> map_of (orientedContacts (ParseClm GA HM r (rows @ [row])))
           (bi, ai, rr (r_bo row), rr (r_ao row))
           = Some (GA (r_dists row))"
    using assms by (simp add: ParseClm_snoc ParseClm_row_def Let_def update_conv')
  have later: "\<exists>g. map_of (orientedContacts (ParseClm GA HM r (rows @ row # later)))
                     (ai, bi, r_ao row, r_bo row) = Some g
                 \<and> map_of (orientedContacts (ParseClm GA HM r (rows @ row # later)))
                     (bi, ai, rr (r_bo row), rr (r_ao row)) = Some g"
    if "orientedContacts r = []"
      and "\<forall>row' \<in> set (rows @ row # later). strand (r_ao row') \<and> strand (r_bo row')"
    by (rule ParseClm_mirrored_at_end[OF that(1) that(2) _ assms]) simp
  from now later show ?thesis by blast
qed

text \<open>
  The theorem at a row for (B, A) that follows a row for (A, B) and is followed by a
  row for (A, B) with the flipped orientations, which overwrites both keys.
\<close>

theorem ParseClm_stores_both_orientations_witness:
  "tigToIdx clm0 (r_at (mk_row ''B'' CHR ''+'' ''A'' CHR ''-'' 2 [10])) = Some 1
   \<and> tigToIdx clm0 (r_bt (mk_row ''B'' CHR ''+'' ''A'' CHR ''-'' 2 [10])) = Some 0
   \<and> map_of (orientedContacts (ParseClm id hd clm0
        ([mk_row ''A'' CHR ''+'' ''B'' CHR ''-'' 1 [30]] @ [mk_row ''B'' CHR ''+'' ''A'' CHR ''-'' 2 [10]])))
        (1, 0, CHR ''+'', CHR ''-'') = Some [10]
   \<and> map_of (orientedContacts (ParseClm id hd clm0
        ([mk_row ''A'' CHR ''+'' ''B'' CHR ''-'' 1 [30]] @ [mk_row ''B'' CHR ''+'' ''A'' CHR ''-'' 2 [10]])))
        (0, 1, CHR ''+'', CHR ''-'') = Some [10]
   \<and> (\<exists>g. map_of (orientedContacts (ParseClm id hd clm0
              ([mk_row ''A'' CHR ''+'' ''B'' CHR ''-'' 1 [30]]
                @ mk_row ''B'' CHR ''+'' ''A'' CHR ''-'' 2 [10]
                # [mk_row ''A'' CHR ''+'' ''B'' CHR ''-'' 3 [20]])))
              (1, 0, CHR ''+'', CHR ''-'') = Some g
          \<and> map_of (orientedContacts (ParseClm id hd clm0
              ([mk_row ''A'' CHR ''+'' ''B'' CHR ''-'' 1 [30]]
                @ mk_row ''B'' CHR ''+'' ''A'' CHR ''-'' 2 [10]
                # [mk_row ''A'' CHR ''+'' ''B'' CHR ''-'' 3 [20]])))
              (0, 1, CHR ''+'', CHR ''-'') = Some g)"
proof -
  have a: "tigToIdx clm0 (r_at (mk_row ''B'' CHR ''+'' ''A'' CHR ''-'' 2 [10])) = Some 1"
    and b: "tigToIdx clm0 (r_bt (mk_row ''B'' CHR ''+'' ''A'' CHR ''-'' 2 [10])) = Some 0"
    by (simp_all add: clm0_def mk_row_def)
  have start: "orientedContacts clm0 = []"
    by (simp add: clm0_def)
  have bytes: "\<forall>row' \<in> set ([mk_row ''A'' CHR ''+'' ''B'' CHR ''-'' 1 [30]]
                @ mk_row ''B'' CHR ''+'' ''A'' CHR ''-'' 2 [10]
                # [mk_row ''A'' CHR ''+'' ''B'' CHR ''-'' 3 [20]]).
      strand (r_ao row') \<and> strand (r_bo row')"
    by (simp add: mk_row_def strand_def)
  from ParseClm_stores_both_orientations[OF a b, of id hd
      "[mk_row ''A'' CHR ''+'' ''B'' CHR ''-'' 1 [30]]"
      "[mk_row ''A'' CHR ''+'' ''B'' CHR ''-'' 3 [20]]"] start bytes
  have "map_of (orientedContacts (ParseClm id hd clm0
        ([mk_row ''A'' CHR ''+'' ''B'' CHR ''-'' 1 [30]] @ [mk_row ''B'' CHR ''+'' ''A'' CHR ''-'' 2 [10]])))
        (1, 0, r_ao (mk_row ''B'' CHR ''+'' ''A'' CHR ''-'' 2 [10]),
         r_bo (mk_row ''B'' CHR ''+'' ''A'' CHR ''-'' 2 [10]))
       = Some (id (r_dists (mk_row ''B'' CHR ''+'' ''A'' CHR ''-'' 2 [10])))
    \<and> map_of (orientedContacts (ParseClm id hd clm0
        ([mk_row ''A'' CHR ''+'' ''B'' CHR ''-'' 1 [30]] @ [mk_row ''B'' CHR ''+'' ''A'' CHR ''-'' 2 [10]])))
        (0, 1, rr (r_bo (mk_row ''B'' CHR ''+'' ''A'' CHR ''-'' 2 [10])),
         rr (r_ao (mk_row ''B'' CHR ''+'' ''A'' CHR ''-'' 2 [10])))
       = Some (id (r_dists (mk_row ''B'' CHR ''+'' ''A'' CHR ''-'' 2 [10])))
    \<and> (\<exists>g. map_of (orientedContacts (ParseClm id hd clm0
              ([mk_row ''A'' CHR ''+'' ''B'' CHR ''-'' 1 [30]]
                @ mk_row ''B'' CHR ''+'' ''A'' CHR ''-'' 2 [10]
                # [mk_row ''A'' CHR ''+'' ''B'' CHR ''-'' 3 [20]])))
              (1, 0, r_ao (mk_row ''B'' CHR ''+'' ''A'' CHR ''-'' 2 [10]),
               r_bo (mk_row ''B'' CHR ''+'' ''A'' CHR ''-'' 2 [10])) = Some g
          \<and> map_of (orientedContacts (ParseClm id hd clm0
              ([mk_row ''A'' CHR ''+'' ''B'' CHR ''-'' 1 [30]]
                @ mk_row ''B'' CHR ''+'' ''A'' CHR ''-'' 2 [10]
                # [mk_row ''A'' CHR ''+'' ''B'' CHR ''-'' 3 [20]])))
              (0, 1, rr (r_bo (mk_row ''B'' CHR ''+'' ''A'' CHR ''-'' 2 [10])),
               rr (r_ao (mk_row ''B'' CHR ''+'' ''A'' CHR ''-'' 2 [10]))) = Some g)"
    by blast
  moreover have "r_ao (mk_row ''B'' CHR ''+'' ''A'' CHR ''-'' 2 [10]) = CHR ''+''"
    "r_bo (mk_row ''B'' CHR ''+'' ''A'' CHR ''-'' 2 [10]) = CHR ''-''"
    "r_dists (mk_row ''B'' CHR ''+'' ''A'' CHR ''-'' 2 [10]) = [10]"
    "rr CHR ''-'' = CHR ''+''" "rr CHR ''+'' = CHR ''-''"
    by (simp_all add: mk_row_def rr_def)
  ultimately show ?thesis using a b by simp
qed

section \<open>Properties of pruneTour\<close>

lemma length_log10ds_of [simp]: "length (log10ds_of Evaluate tour) = length (TourTigs tour)"
  by (simp add: log10ds_of_def Let_def)






section \<open>Properties of the pruning passes\<close>

lemma only_deactivated_refl [simp]: "only_deactivated t t"
  by (simp add: only_deactivated_def)

lemma only_deactivated_off [simp]: "only_deactivated t (t\<lparr>IsActive := False\<rparr>)"
  by (simp add: only_deactivated_def)

lemma only_deactivated_trans:
  "only_deactivated t u \<Longrightarrow> only_deactivated u v \<Longrightarrow> only_deactivated t v"
  by (auto simp: only_deactivated_def)

lemma deactivating_refl [simp]: "deactivating ts ts"
  by (simp add: deactivating_def list_all2_same)

lemma deactivating_trans:
  "deactivating ts us \<Longrightarrow> deactivating us vs \<Longrightarrow> deactivating ts vs"
  unfolding deactivating_def
  by (rule list_all2_trans[of only_deactivated only_deactivated]) (auto intro: only_deactivated_trans)

lemma deactivating_update:
  "i < length ts \<Longrightarrow> deactivating ts (ts[i := (ts ! i)\<lparr>IsActive := False\<rparr>])"
  by (simp add: deactivating_def list_all2_conv_all_nth nth_list_update)

lemma Tigs_ParseClm_row [simp]: "Tigs (ParseClm_row GA HM r row) = Tigs r"
  by (simp add: ParseClm_row_def Let_def split: option.split)

lemma Tigs_ParseClm [simp]: "Tigs (ParseClm GA HM r rows) = Tigs r"
  by (induction rows arbitrary: r) (simp_all add: ParseClm_def)

lemma Tigs_ParseIds_loop: "take (length (Tigs r)) (Tigs (ParseIds_loop r idx ids)) = Tigs r"
proof (induction ids arbitrary: r idx)
  case Nil
  show ?case by simp
next
  case (Cons l ids)
  obtain tig sz where l: "l = (tig, sz)" by (cases l)
  let ?r1 = "r\<lparr>Tigs := Tigs r @ [\<lparr>Idx = idx, Name = tig, Size = sz, IsActive = True\<rparr>],
               tigToIdx := (tigToIdx r)(tig \<mapsto> idx)\<rparr>"
  have "take (length (Tigs ?r1)) (Tigs (ParseIds_loop ?r1 (int64 (idx + 1)) ids)) = Tigs ?r1"
    by (rule Cons.IH)
  then have "take (length (Tigs r)) (take (length (Tigs ?r1)) (Tigs (ParseIds_loop ?r1 (int64 (idx + 1)) ids)))
      = take (length (Tigs r)) (Tigs ?r1)"
    by simp
  then show ?case using l by (simp add: min_def)
qed

lemma Tigs_ParseIds: "take (length (Tigs r)) (Tigs (ParseIds r ids)) = Tigs r"
  by (simp add: ParseIds_def Tigs_ParseIds_loop)

lemma pruneBySize_deactivating: "deactivating (Tigs r) (Tigs (pruneBySize MINSIZE r))"
  by (simp add: pruneBySize_def deactivating_def list_all2_conv_all_nth)

lemma length_add_at: "add_at ds i n = Inr ds' \<Longrightarrow> length ds' = length ds"
  by (auto simp: add_at_def split: if_splits)

lemma length_density_loop: "density_loop cs ds = Inr ds' \<Longrightarrow> length ds' = length ds"
proof (induction cs arbitrary: ds)
  case Nil
  then show ?case by simp
next
  case (Cons c cs)
  obtain pair contact where c: "c = (pair, contact)" by (cases c)
  from Cons.prems c obtain d1 d2 where
    "add_at ds (fst pair) (nlinks contact) = Inr d1"
    "add_at d1 (snd pair) (nlinks contact) = Inr d2"
    "density_loop cs d2 = Inr ds'"
    by (auto split: sum.splits)
  then show ?case
    using Cons.IH[of d2] by (simp add: length_add_at)
qed

lemma length_calculateDensities:
  "calculateDensities r = Inr ld \<Longrightarrow> length ld = length (Tigs r)"
  by (auto simp: calculateDensities_def split: sum.splits dest!: length_density_loop)

lemma pruneByDensity_deactivating:
  assumes "pruneByDensity OutlierCutoff MINSIZE r = Inr r'"
  shows "deactivating (Tigs r) (Tigs r')"
proof -
  from assms obtain ld where ld: "calculateDensities r = Inr ld"
    by (auto simp: pruneByDensity_def split: sum.splits)
  then have len: "length ld = length (Tigs r)"
    by (rule length_calculateDensities)
  obtain lb ub where cut: "OutlierCutoff ld = (lb, ub)"
    by (cases "OutlierCutoff ld")
  from assms ld cut have "Tigs r' =
      map (\<lambda>(tig, l). if f64_lt l lb \<and> Size tig < MINSIZE * 10 then tig\<lparr>IsActive := False\<rparr> else tig)
        (zip (Tigs r) ld)"
    by (auto simp: pruneByDensity_def)
  then show ?thesis
    using len by (simp add: deactivating_def list_all2_conv_all_nth)
qed

lemma deactivate_deactivating:
  "deactivate tigs zs lb n = Inr (tigs', n') \<Longrightarrow> deactivating tigs tigs'"
proof (induction zs arbitrary: tigs n)
  case Nil
  then show ?case by simp
next
  case (Cons z zs)
  obtain tig l where z: "z = (tig, l)" by (cases z)
  show ?case
  proof (cases "f64_lt l lb")
    case True
    with Cons.prems z have idx: "0 \<le> TigIdx tig" "nat (TigIdx tig) < length tigs"
      and rest: "deactivate (tigs[nat (TigIdx tig) := (tigs ! nat (TigIdx tig))\<lparr>IsActive := False\<rparr>])
                   zs lb (Suc n) = Inr (tigs', n')"
      by (auto split: if_splits)
    from deactivating_update[OF idx(2)] Cons.IH[OF rest] show ?thesis
      by (rule deactivating_trans)
  next
    case False
    with Cons.prems z have "deactivate tigs zs lb n = Inr (tigs', n')" by simp
    then show ?thesis by (rule Cons.IH)
  qed
qed

lemma pruneTour_phase_deactivating:
  assumes "pruneTour_phase Evaluate OutlierCutoff r = Inr (r', stop)"
  shows "deactivating (Tigs r) (Tigs r')"
proof -
  obtain lb ub where cut: "OutlierCutoff (log10ds_of Evaluate (Tour r)) = (lb, ub)"
    by (cases "OutlierCutoff (log10ds_of Evaluate (Tour r))")
  from assms cut obtain tigs' invalid where
    d: "deactivate (Tigs r) (zip (TourTigs (Tour r)) (log10ds_of Evaluate (Tour r))) lb 0
          = Inr (tigs', invalid)"
    and t: "Tigs r' = tigs'"
    by (auto simp: pruneTour_phase_def Let_def split: sum.splits if_splits)
  from deactivate_deactivating[OF d] t show ?thesis by simp
qed

lemma pruneTour_deactivating:
  assumes "pruneTour Evaluate OutlierCutoff r = Inr r'"
  shows "deactivating (Tigs r) (Tigs r')"
proof -
  from assms obtain r1 stop where p1: "pruneTour_phase Evaluate OutlierCutoff r = Inr (r1, stop)"
    by (auto simp: pruneTour_def split: sum.splits)
  show ?thesis
  proof (cases stop)
    case True
    with assms p1 have "r' = r1" by (simp add: pruneTour_def)
    then show ?thesis using pruneTour_phase_deactivating[OF p1] by simp
  next
    case False
    with assms p1 obtain stop2 where
      p2: "pruneTour_phase Evaluate OutlierCutoff r1 = Inr (r', stop2)"
      by (auto simp: pruneTour_def split: sum.splits)
    from pruneTour_phase_deactivating[OF p1] pruneTour_phase_deactivating[OF p2]
    show ?thesis by (rule deactivating_trans)
  qed
qed

lemma pruneByDensity_clm1: "pruneByDensity (\<lambda>ld. (PInf, PInf)) 1000 clm1
       = Inr (clm1\<lparr>Tigs := [\<lparr>Idx = 0, Name = ''A'', Size = 500, IsActive = False\<rparr>,
                             \<lparr>Idx = 1, Name = ''B'', Size = 20000, IsActive = True\<rparr>]\<rparr>)"
  by (simp add: pruneByDensity_def calculateDensities_def clm1_def add_at_def int64_def)

lemma pruneTour_clm1: "pruneTour (\<lambda>t. Fin (- real (length (TourTigs t)) / 2)) (\<lambda>ld. (PInf, PInf)) clm1
       = Inr (clm1\<lparr>Tigs := [\<lparr>Idx = 0, Name = ''A'', Size = 500, IsActive = False\<rparr>,
                             \<lparr>Idx = 1, Name = ''B'', Size = 20000, IsActive = False\<rparr>],
                   Tour := \<lparr>TourTigs = [], TourM = [[0, 5], [5, 0]]\<rparr>\<rparr>)"
  by (simp add: pruneTour_def pruneTour_phase_def log10ds_of_def log10d_def clm1_def delete_at_def
      f64_sub_def f64_gt_def Let_def upt_rec)

text \<open>
  C7. pruneBySize, pruneByDensity and pruneTour are deactivating: a contig that is
  inactive before the pass is inactive after it, and its index, name and size stay. For
  the two passes that can panic this is said of every run that returns. ParseClm does
  not touch the contigs, and ParseIds only appends contigs after those that are there.
\<close>

theorem prune_only_deactivates:
  "deactivating (Tigs r) (Tigs (pruneBySize MINSIZE r))
   \<and> (\<forall>r'. pruneByDensity OutlierCutoff MINSIZE r = Inr r' \<longrightarrow> deactivating (Tigs r) (Tigs r'))
   \<and> (\<forall>r'. pruneTour Evaluate OutlierCutoff r = Inr r' \<longrightarrow> deactivating (Tigs r) (Tigs r'))
   \<and> Tigs (ParseClm GA HM r rows) = Tigs r
   \<and> take (length (Tigs r)) (Tigs (ParseIds r ids)) = Tigs r"
  using pruneBySize_deactivating pruneByDensity_deactivating pruneTour_deactivating
    Tigs_ParseIds
  by auto


text \<open>
  The theorem on the clm file above, with \<open>MINSIZE = 1000\<close> and an outlier bound above
  every value: pruneBySize and pruneByDensity switch A off, pruneTour switches both off.
\<close>

theorem prune_only_deactivates_witness:
  "deactivating (Tigs clm1) (Tigs (pruneBySize 1000 clm1))
   \<and> map IsActive (Tigs (pruneBySize 1000 clm1)) = [False, True]
   \<and> pruneByDensity (\<lambda>ld. (PInf, PInf)) 1000 clm1
       = Inr (clm1\<lparr>Tigs := [\<lparr>Idx = 0, Name = ''A'', Size = 500, IsActive = False\<rparr>,
                             \<lparr>Idx = 1, Name = ''B'', Size = 20000, IsActive = True\<rparr>]\<rparr>)
   \<and> deactivating (Tigs clm1)
        [\<lparr>Idx = 0, Name = ''A'', Size = 500, IsActive = False\<rparr>,
         \<lparr>Idx = 1, Name = ''B'', Size = 20000, IsActive = True\<rparr>]
   \<and> pruneTour (\<lambda>t. Fin (- real (length (TourTigs t)) / 2)) (\<lambda>ld. (PInf, PInf)) clm1
       = Inr (clm1\<lparr>Tigs := [\<lparr>Idx = 0, Name = ''A'', Size = 500, IsActive = False\<rparr>,
                             \<lparr>Idx = 1, Name = ''B'', Size = 20000, IsActive = False\<rparr>],
                   Tour := \<lparr>TourTigs = [], TourM = [[0, 5], [5, 0]]\<rparr>\<rparr>)
   \<and> deactivating (Tigs clm1)
        [\<lparr>Idx = 0, Name = ''A'', Size = 500, IsActive = False\<rparr>,
         \<lparr>Idx = 1, Name = ''B'', Size = 20000, IsActive = False\<rparr>]"
proof -
  note all = prune_only_deactivates
    [of clm1 1000 "\<lambda>ld. (PInf, PInf)" "\<lambda>t. Fin (- real (length (TourTigs t)) / 2)" id hd "[]"
        "[]"]
  have size: "deactivating (Tigs clm1) (Tigs (pruneBySize 1000 clm1))"
    using all by blast
  have flags: "map IsActive (Tigs (pruneBySize 1000 clm1)) = [False, True]"
    by (simp add: pruneBySize_def clm1_def)
  have "deactivating (Tigs clm1)
      (Tigs (clm1\<lparr>Tigs := [\<lparr>Idx = 0, Name = ''A'', Size = 500, IsActive = False\<rparr>,
                            \<lparr>Idx = 1, Name = ''B'', Size = 20000, IsActive = True\<rparr>]\<rparr>))"
    using all pruneByDensity_clm1 by blast
  then have density: "deactivating (Tigs clm1)
      [\<lparr>Idx = 0, Name = ''A'', Size = 500, IsActive = False\<rparr>,
       \<lparr>Idx = 1, Name = ''B'', Size = 20000, IsActive = True\<rparr>]"
    by simp
  have "deactivating (Tigs clm1)
      (Tigs (clm1\<lparr>Tigs := [\<lparr>Idx = 0, Name = ''A'', Size = 500, IsActive = False\<rparr>,
                            \<lparr>Idx = 1, Name = ''B'', Size = 20000, IsActive = False\<rparr>],
                  Tour := \<lparr>TourTigs = [], TourM = [[0, 5], [5, 0]]\<rparr>\<rparr>))"
    using all pruneTour_clm1 by blast
  then have tour: "deactivating (Tigs clm1)
      [\<lparr>Idx = 0, Name = ''A'', Size = 500, IsActive = False\<rparr>,
       \<lparr>Idx = 1, Name = ''B'', Size = 20000, IsActive = False\<rparr>]"
    by simp
  from size flags density tour pruneByDensity_clm1 pruneTour_clm1 show ?thesis
    by (intro conjI)
qed

end
